theory Spec2Isabelle
  imports Main "HOL-Library.Word" "HOL-Library.Signed_Division"
begin

section \<open>The sequence kernel of velox/functions/prestosql/Sequence.cpp\<close>

text \<open>
  The kernel is written over C++ machine integers. They are modelled as words:
  \<open>int64_t\<close> is \<open>64 word\<close>, \<open>int128_t\<close> is \<open>128 word\<close> and \<open>vector_size_t\<close> (a
  signed 32-bit integer) is \<open>32 word\<close>. Addition, subtraction and multiplication wrap
  around; \<open>sint\<close> reads the two's complement value. Signed overflow is undefined in
  C++; wrapping is the two's complement result, and the theorems say where the value
  read as an integer is the mathematical one.
\<close>

type_synonym int32 = "32 word"
type_synonym int64 = "64 word"
type_synonym int128 = "128 word"
type_synonym vector_size_t = "32 word"

subsection \<open>Signed division and remainder of C++\<close>

text \<open>
  The operators \<open>/\<close> and \<open>%\<close> of C++ on signed integers truncate towards zero; on
  unbounded integers that is \<open>sdiv\<close> and \<open>smod\<close>. The result is brought back to the
  width of the operands.
\<close>

definition cdiv :: "'a::len word \<Rightarrow> 'a word \<Rightarrow> 'a word" where
  "cdiv a b = word_of_int (sint a sdiv sint b)"

definition crem :: "'a::len word \<Rightarrow> 'a word \<Rightarrow> 'a word" where
  "crem a b = word_of_int (sint a smod sint b)"

subsection \<open>User errors\<close>

text \<open>
  Every \<open>VELOX_USER_CHECK\<close> of the file raises a user error. The four checks are told
  apart by a constructor each:
  \<^item> \<open>ZeroStep\<close>: "step must not be zero";
  \<^item> \<open>DirectionMismatch\<close>: "sequence stop value should be greater than or equal to
    start value if step is greater than zero otherwise stop should be less than or
    equal to start";
  \<^item> \<open>ResultTooLarge\<close>: "result of sequence function must not have more than 10000
    entries";
  \<^item> \<open>InvalidDateStepUnit\<close>: "sequence step must be a day interval if start and end
    values are dates".
\<close>

datatype error = ZeroStep | DirectionMismatch | ResultTooLarge | InvalidDateStepUnit

subsection \<open>Element domains: \<open>toInt64\<close> and \<open>add\<close>\<close>

text \<open>
  Modelled from the spec: the types \<open>Date\<close> and \<open>Timestamp\<close> are declared outside
  this file (with \<open>Date::days\<close>, the constructor \<open>Date(days)\<close>,
  \<open>Timestamp::toMillis\<close> and \<open>Timestamp::fromMillis\<close>). The spec describes a date
  by its day count and a timestamp by its count of milliseconds since the epoch, both
  mapped to the 64-bit ordinal without loss. The day count is taken as a signed 32-bit
  integer, the millisecond count as a signed 64-bit integer.
\<close>

datatype Date = Date (days: int32)

datatype Timestamp = fromMillis (toMillis: int64)

text \<open>The three specialisations of \<open>toInt64\<close>.\<close>

definition toInt64_int64 :: "int64 \<Rightarrow> int64" where
  "toInt64_int64 value = value"

definition toInt64_Date :: "Date \<Rightarrow> int64" where
  "toInt64_Date value = scast (days value)"

definition toInt64_Timestamp :: "Timestamp \<Rightarrow> int64" where
  "toInt64_Timestamp value = toMillis value"

text \<open>
  The three specialisations of \<open>add\<close>. For a date the sum is formed in 64 bits and
  narrowed to the day count by the constructor.
\<close>

definition add_int64 :: "int64 \<Rightarrow> int64 \<Rightarrow> int64" where
  "add_int64 value steps = value + steps"

definition add_Date :: "Date \<Rightarrow> int64 \<Rightarrow> Date" where
  "add_Date value steps = Date (scast ((scast (days value) :: int64) + steps))"

definition add_Timestamp :: "Timestamp \<Rightarrow> int64 \<Rightarrow> Timestamp" where
  "add_Timestamp value steps = fromMillis (toMillis value + steps)"

subsection \<open>Constants\<close>

definition kMaxResultEntries :: int32 where
  "kMaxResultEntries = 10000"

text \<open>
  Modelled from the spec: \<open>kMillisInDay\<close> is declared outside this file; it is the
  number of milliseconds in one day.
\<close>

definition kMillisInDay :: int64 where
  "kMillisInDay = 86400000"

subsection \<open>Step inference: \<open>getStep\<close>\<close>

text \<open>
  A decoded column is read with \<open>valueAt(row)\<close>: it is a function of the row. The
  step column is a pointer that is null when the call has two arguments.
\<close>

type_synonym 'a DecodedVector = "nat \<Rightarrow> 'a"

definition getStep ::
  "int64 \<Rightarrow> int64 \<Rightarrow> int64 DecodedVector option \<Rightarrow> nat \<Rightarrow> bool \<Rightarrow> error + int64" where
  "getStep start stop stepVector row isDate =
     (case stepVector of
        None \<Rightarrow> Inr (if start \<le>s stop then 1 else - 1)
      | Some sv \<Rightarrow>
          (let step = sv row in
           if \<not> isDate then Inr step
           else if crem step kMillisInDay \<noteq> 0 then Inl InvalidDateStepUnit
           else Inr (cdiv step kMillisInDay)))"

subsection \<open>Validation and sizing: \<open>checkArguments\<close>\<close>

text \<open>
  The count is computed in 128 bits from the sign-extended arguments, compared with
  the sign-extended \<open>kMaxResultEntries\<close>, and narrowed to \<open>vector_size_t\<close> on return.
\<close>

definition sequenceCount128 :: "int64 \<Rightarrow> int64 \<Rightarrow> int64 \<Rightarrow> int128" where
  "sequenceCount128 start stop step =
     cdiv ((scast stop :: int128) - (scast start :: int128)) (scast step) + 1"

definition checkArguments :: "int64 \<Rightarrow> int64 \<Rightarrow> int64 \<Rightarrow> error + vector_size_t" where
  "checkArguments start stop step =
     (if step = 0 then Inl ZeroStep
      else if \<not> (if 0 <s step then start \<le>s stop else stop \<le>s start)
        then Inl DirectionMismatch
      else
        (let sequenceCount = sequenceCount128 start stop step in
         if \<not> (sequenceCount \<le>s scast kMaxResultEntries) then Inl ResultTooLarge
         else Inr (scast sequenceCount)))"

subsection \<open>The fill pass: \<open>writeToElements\<close>\<close>

text \<open>
  The destination \<open>T* elements\<close> is the element buffer together with the index
  \<open>base\<close> of its first slot, so that \<open>elements[i]\<close> is slot \<open>base + i\<close> of the
  buffer. The loop counter is a C++ \<open>int\<close> that runs from 0 while it is below the
  32-bit \<open>sequenceCount\<close>; \<open>step * i\<close> is a 64-bit product. A store outside the
  buffer is undefined in C++ and leaves the list unchanged here; in the kernel every
  store lies inside the buffer when the total of the batch fits (\<open>second_pass\<close>
  below).
\<close>

function writeLoop ::
  "('a \<Rightarrow> int64 \<Rightarrow> 'a) \<Rightarrow> 'a \<Rightarrow> int64 \<Rightarrow> vector_size_t \<Rightarrow> nat \<Rightarrow> nat \<Rightarrow> 'a list \<Rightarrow> 'a list"
where
  "writeLoop add start step sequenceCount base i elements =
     (if int i < sint sequenceCount
      then writeLoop add start step sequenceCount base (Suc i)
             (elements[base + i := add start (step * of_nat i)])
      else elements)"
  by pat_completeness auto
termination
  by (relation "measure (\<lambda>(add, start, step, sequenceCount, base, i, elements).
        nat (sint sequenceCount) - i)") auto

declare writeLoop.simps [simp del]

definition writeToElements ::
  "('a \<Rightarrow> int64) \<Rightarrow> ('a \<Rightarrow> int64 \<Rightarrow> 'a) \<Rightarrow> 'a list \<Rightarrow> nat \<Rightarrow> bool \<Rightarrow> vector_size_t \<Rightarrow>
   'a DecodedVector \<Rightarrow> 'a DecodedVector \<Rightarrow> int64 DecodedVector option \<Rightarrow> nat \<Rightarrow>
   error + 'a list"
where
  "writeToElements toInt64 add elements base isDate sequenceCount
       startVector stopVector stepVector row =
     (let start = startVector row;
          stop = stopVector row
      in case getStep (toInt64 start) (toInt64 stop) stepVector row isDate of
           Inl e \<Rightarrow> Inl e
         | Inr step \<Rightarrow> Inr (writeLoop add start step sequenceCount base 0 elements))"

subsection \<open>The batch: selection mask, evaluation context and result\<close>

text \<open>
  Modelled from the spec: \<open>SelectivityVector\<close>, \<open>EvalCtx\<close>,
  \<open>applyToSelectedNoThrow\<close>, \<open>allocateSizes\<close>, \<open>allocateOffsets\<close>,
  \<open>BaseVector::create\<close> and \<open>ArrayVector\<close> are declared outside this file.
  \<^item> The selection mask is a mask over the row indices in \<open>[0, batchSize)\<close>;
    \<open>end()\<close> is the batch size, and the selected rows are visited in ascending
    order.
  \<^item> A failure of one row is collected in the context as a per-row error, and the
    batch goes on with the next row. The function run on a row returns the state
    it has reached, and the error if it raised one.
  \<^item> The size of a row is 0 unless it is set, and an offset keeps its default value,
    taken as 0, unless it is set.
  \<^item> The fresh element buffer has the requested number of slots; what they hold
    before they are written is not known, and is the parameter \<open>uninit\<close>.
\<close>

type_synonym SelectivityVector = "bool list"

definition rows_end :: "SelectivityVector \<Rightarrow> nat" where
  "rows_end rows = length rows"

definition selectedRows :: "SelectivityVector \<Rightarrow> nat list" where
  "selectedRows rows = filter (\<lambda>row. rows ! row) [0..<length rows]"

type_synonym EvalCtx = "(nat \<times> error) list"

definition setError :: "EvalCtx \<Rightarrow> nat \<Rightarrow> error \<Rightarrow> EvalCtx" where
  "setError context row e = context @ [(row, e)]"

fun applyRows ::
  "(nat \<Rightarrow> 's \<Rightarrow> 's \<times> error option) \<Rightarrow> nat list \<Rightarrow> 's \<times> EvalCtx \<Rightarrow> 's \<times> EvalCtx"
where
  "applyRows func [] sc = sc"
| "applyRows func (row # rs) (s, context) =
     (case func row s of
        (s', None) \<Rightarrow> applyRows func rs (s', context)
      | (s', Some e) \<Rightarrow> applyRows func rs (s', setError context row e))"

definition applyToSelectedNoThrow ::
  "SelectivityVector \<Rightarrow> (nat \<Rightarrow> 's \<Rightarrow> 's \<times> error option) \<Rightarrow> 's \<times> EvalCtx \<Rightarrow> 's \<times> EvalCtx"
where
  "applyToSelectedNoThrow rows func sc = applyRows func (selectedRows rows) sc"

definition allocateSizes :: "nat \<Rightarrow> vector_size_t list" where
  "allocateSizes numRows = replicate numRows 0"

definition allocateOffsets :: "nat \<Rightarrow> vector_size_t list" where
  "allocateOffsets numRows = replicate numRows 0"

definition create :: "vector_size_t \<Rightarrow> (nat \<Rightarrow> 'a) \<Rightarrow> 'a list" where
  "create numElements uninit = map uninit [0..<nat (sint numElements)]"

record 'a ArrayVector =
  arraySize :: nat
  arrayOffsets :: "vector_size_t list"
  arraySizes :: "vector_size_t list"
  arrayElements :: "'a list"

subsection \<open>The kernel: \<open>SequenceFunction::apply\<close>\<close>

text \<open>
  The body of the first pass on one row. Both calls can raise before anything is
  stored, so a failing row leaves \<open>rawSizes\<close> and \<open>numElements\<close> as they are.
\<close>

definition sizeRow ::
  "('a \<Rightarrow> int64) \<Rightarrow> 'a DecodedVector \<Rightarrow> 'a DecodedVector \<Rightarrow> int64 DecodedVector option \<Rightarrow>
   bool \<Rightarrow> nat \<Rightarrow> vector_size_t list \<times> vector_size_t \<Rightarrow>
   (vector_size_t list \<times> vector_size_t) \<times> error option"
where
  "sizeRow toInt64 startVector stopVector stepVector isDate row s =
     (case s of (rawSizes, numElements) \<Rightarrow>
        (let start = toInt64 (startVector row);
             stop = toInt64 (stopVector row)
         in case getStep start stop stepVector row isDate of
              Inl e \<Rightarrow> (s, Some e)
            | Inr step \<Rightarrow>
                (case checkArguments start stop step of
                   Inl e \<Rightarrow> (s, Some e)
                 | Inr sequenceCount \<Rightarrow>
                     (let rawSizes' = rawSizes[row := sequenceCount]
                      in ((rawSizes', numElements + rawSizes' ! row), None)))))"

text \<open>
  The body of the second pass on one row. The offset is stored before
  \<open>writeToElements\<close> is called, and the running offset advances after it.
\<close>

definition fillRow ::
  "('a \<Rightarrow> int64) \<Rightarrow> ('a \<Rightarrow> int64 \<Rightarrow> 'a) \<Rightarrow> vector_size_t list \<Rightarrow> bool \<Rightarrow>
   'a DecodedVector \<Rightarrow> 'a DecodedVector \<Rightarrow> int64 DecodedVector option \<Rightarrow> nat \<Rightarrow>
   vector_size_t list \<times> 'a list \<times> vector_size_t \<Rightarrow>
   (vector_size_t list \<times> 'a list \<times> vector_size_t) \<times> error option"
where
  "fillRow toInt64 add rawSizes isDate startVector stopVector stepVector row s =
     (case s of (rawOffsets, rawElements, elementsOffset) \<Rightarrow>
        (let sequenceCount = rawSizes ! row
         in if sequenceCount \<noteq> 0 then
              (let rawOffsets' = rawOffsets[row := elementsOffset]
               in case writeToElements toInt64 add rawElements (unat elementsOffset) isDate
                         sequenceCount startVector stopVector stepVector row of
                    Inl e \<Rightarrow> ((rawOffsets', rawElements, elementsOffset), Some e)
                  | Inr rawElements' \<Rightarrow>
                      ((rawOffsets', rawElements', elementsOffset + rawSizes ! row), None))
            else (s, None)))"

definition SequenceFunction_apply ::
  "('a \<Rightarrow> int64) \<Rightarrow> ('a \<Rightarrow> int64 \<Rightarrow> 'a) \<Rightarrow> SelectivityVector \<Rightarrow>
   'a DecodedVector \<Rightarrow> 'a DecodedVector \<Rightarrow> int64 DecodedVector option \<Rightarrow> bool \<Rightarrow>
   (nat \<Rightarrow> 'a) \<Rightarrow> EvalCtx \<Rightarrow> 'a ArrayVector \<times> EvalCtx"
where
  "SequenceFunction_apply toInt64 add rows startVector stopVector stepVector isDate
       uninit context =
     (let numRows = rows_end rows;
          sizes = allocateSizes numRows;
          offsets = allocateOffsets numRows;
          ((rawSizes, numElements), context1) =
             applyToSelectedNoThrow rows
               (sizeRow toInt64 startVector stopVector stepVector isDate)
               ((sizes, 0), context);
          elements = create numElements uninit;
          ((rawOffsets, rawElements, elementsOffset), context2) =
             applyToSelectedNoThrow rows
               (fillRow toInt64 add rawSizes isDate startVector stopVector stepVector)
               ((offsets, elements, 0), context1)
      in (\<lparr>arraySize = numRows, arrayOffsets = rawOffsets, arraySizes = rawSizes,
           arrayElements = rawElements\<rparr>, context2))"

section \<open>What the claims are stated against\<close>

subsection \<open>The count and the direction of a row over the integers\<close>

text \<open>
  The mathematical count of a row: \<open>(stop - start) / step + 1\<close> over the unbounded
  integers, with the truncating division of C++.
\<close>

definition countOf :: "int64 \<Rightarrow> int64 \<Rightarrow> int64 \<Rightarrow> int" where
  "countOf start stop step = (sint stop - sint start) sdiv sint step + 1"

definition directionOk :: "int64 \<Rightarrow> int64 \<Rightarrow> int64 \<Rightarrow> bool" where
  "directionOk start stop step =
     (if 0 < sint step then sint start \<le> sint stop else sint stop \<le> sint start)"

subsection \<open>The sequence of a row\<close>

text \<open>
  What the two passes derive for a row from the columns: the step, the validated count
  (or the error of the row), the size the row takes in the element buffer, and the
  values of its slice, \<open>add(start, step * i)\<close> for \<open>i\<close> in \<open>[0, count)\<close>.
\<close>

definition rowStep ::
  "('a \<Rightarrow> int64) \<Rightarrow> 'a DecodedVector \<Rightarrow> 'a DecodedVector \<Rightarrow> int64 DecodedVector option \<Rightarrow>
   bool \<Rightarrow> nat \<Rightarrow> error + int64"
where
  "rowStep toInt64 startVector stopVector stepVector isDate row =
     getStep (toInt64 (startVector row)) (toInt64 (stopVector row)) stepVector row isDate"

definition rowCount ::
  "('a \<Rightarrow> int64) \<Rightarrow> 'a DecodedVector \<Rightarrow> 'a DecodedVector \<Rightarrow> int64 DecodedVector option \<Rightarrow>
   bool \<Rightarrow> nat \<Rightarrow> error + vector_size_t"
where
  "rowCount toInt64 startVector stopVector stepVector isDate row =
     (case rowStep toInt64 startVector stopVector stepVector isDate row of
        Inl e \<Rightarrow> Inl e
      | Inr step \<Rightarrow>
          checkArguments (toInt64 (startVector row)) (toInt64 (stopVector row)) step)"

definition rowSize ::
  "('a \<Rightarrow> int64) \<Rightarrow> 'a DecodedVector \<Rightarrow> 'a DecodedVector \<Rightarrow> int64 DecodedVector option \<Rightarrow>
   bool \<Rightarrow> nat \<Rightarrow> nat"
where
  "rowSize toInt64 startVector stopVector stepVector isDate row =
     (case rowCount toInt64 startVector stopVector stepVector isDate row of
        Inl e \<Rightarrow> 0
      | Inr c \<Rightarrow> unat c)"

definition rowValues ::
  "('a \<Rightarrow> int64) \<Rightarrow> ('a \<Rightarrow> int64 \<Rightarrow> 'a) \<Rightarrow> 'a DecodedVector \<Rightarrow> 'a DecodedVector \<Rightarrow>
   int64 DecodedVector option \<Rightarrow> bool \<Rightarrow> nat \<Rightarrow> 'a list"
where
  "rowValues toInt64 add startVector stopVector stepVector isDate row =
     (case rowStep toInt64 startVector stopVector stepVector isDate row of
        Inl e \<Rightarrow> []
      | Inr step \<Rightarrow>
          map (\<lambda>i. add (startVector row) (step * of_nat i))
            [0..<rowSize toInt64 startVector stopVector stepVector isDate row])"

section \<open>Arithmetic of the count\<close>

subsection \<open>Truncating division on integers\<close>

lemma sdiv_pos_pos: "0 \<le> a \<Longrightarrow> 0 < b \<Longrightarrow> (a::int) sdiv b = a div b"
  by (simp add: signed_divide_int_def sgn_if)

lemma sdiv_neg_neg: "a \<le> 0 \<Longrightarrow> b < 0 \<Longrightarrow> (a::int) sdiv b = (- a) div (- b)"
  by (simp add: signed_divide_int_def sgn_if)

lemma sdiv_abs_le: "\<bar>(a::int) sdiv b\<bar> \<le> \<bar>a\<bar>"
  using sdiv_int_range [of a b] by auto

lemma sdiv_same_sign_nonneg:
  assumes "if 0 < b then 0 \<le> a else a \<le> 0"
  shows "0 \<le> (a::int) sdiv b"
proof (cases "0 < b")
  case True
  with assms show ?thesis by (simp add: sdiv_pos_pos pos_imp_zdiv_nonneg_iff)
next
  case False
  show ?thesis
  proof (cases "b = 0")
    case True
    then show ?thesis by simp
  next
    case nz: False
    with False assms have "a \<le> 0" "b < 0" by simp_all
    then show ?thesis by (simp add: sdiv_neg_neg neg_imp_zdiv_nonneg_iff)
  qed
qed

subsection \<open>Reading the words as integers\<close>

lemma sint_scast_64_128: "sint (scast (x::int64) :: int128) = sint x"
  by (simp add: sint_up_scast is_up)

lemma sint_scast_32_128: "sint (scast (x::int32) :: int128) = sint x"
  by (simp add: sint_up_scast is_up)

lemma sint64_bounds: "- (2^63) \<le> sint (x::int64) \<and> sint x < 2^63"
  using sint_ge [of x] sint_lt [of x] by simp

lemma sint64_diff_bound: "\<bar>sint (a::int64) - sint (b::int64)\<bar> < 2^64"
  using sint64_bounds [of a] sint64_bounds [of b] by (simp add: abs_less_iff)

lemma sint_word_of_int_128:
  "- (2^127) \<le> k \<Longrightarrow> k < 2^127 \<Longrightarrow> sint (word_of_int k :: int128) = k"
  by (simp add: sint_sbintrunc' signed_take_bit_int_eq_self)

lemma word64_eq_0_iff: "(x::int64) = 0 \<longleftrightarrow> sint x = 0"
  by (metis sint_0 signed_word_eqI)

lemma sint_diff128:
  "sint ((scast (stop::int64) :: int128) - scast (start::int64)) = sint stop - sint start"
proof -
  have "\<bar>sint stop - sint start\<bar> < 2^64" by (rule sint64_diff_bound)
  then have "- (2^127) \<le> sint stop - sint start" "sint stop - sint start < 2^127"
    by simp_all
  then show ?thesis
    by (simp add: sint_word_ariths sint_scast_64_128 signed_take_bit_int_eq_self)
qed

lemma sint_cdiv128:
  "sint (cdiv ((scast (stop::int64) :: int128) - scast (start::int64)) (scast (step::int64)))
     = (sint stop - sint start) sdiv sint step"
proof -
  let ?q = "(sint stop - sint start) sdiv sint step"
  have "\<bar>?q\<bar> \<le> \<bar>sint stop - sint start\<bar>" by (rule sdiv_abs_le)
  moreover have "\<bar>sint stop - sint start\<bar> < 2^64" by (rule sint64_diff_bound)
  ultimately have "- (2^127) \<le> ?q" "?q < 2^127" by simp_all
  then show ?thesis
    by (simp add: cdiv_def sint_diff128 sint_scast_64_128 sint_word_of_int_128)
qed

lemma sint_sequenceCount128:
  "sint (sequenceCount128 start stop step) = (sint stop - sint start) sdiv sint step + 1"
proof -
  let ?q = "(sint stop - sint start) sdiv sint step"
  have "\<bar>?q\<bar> \<le> \<bar>sint stop - sint start\<bar>" by (rule sdiv_abs_le)
  moreover have "\<bar>sint stop - sint start\<bar> < 2^64" by (rule sint64_diff_bound)
  ultimately have "- (2^127) \<le> ?q + 1" "?q + 1 < 2^127" by simp_all
  then show ?thesis
    unfolding sequenceCount128_def
    by (simp add: sint_word_ariths sint_cdiv128 signed_take_bit_int_eq_self)
qed

subsection \<open>\<open>checkArguments\<close> over the integers\<close>

lemma checkArguments_eq:
  "checkArguments start stop step =
     (if sint step = 0 then Inl ZeroStep
      else if \<not> directionOk start stop step then Inl DirectionMismatch
      else if 10000 < countOf start stop step then Inl ResultTooLarge
      else Inr (word_of_int (countOf start stop step)))"
  by (simp add: checkArguments_def Let_def word64_eq_0_iff word_sle_eq word_sless_alt
      sint_sequenceCount128 sint_scast_32_128 kMaxResultEntries_def scast_eq not_le
      countOf_def directionOk_def)

lemma countOf_ge_1: "directionOk start stop step \<Longrightarrow> 1 \<le> countOf start stop step"
  using sdiv_same_sign_nonneg [of "sint step" "sint stop - sint start"]
  by (simp add: countOf_def directionOk_def split: if_splits)

lemma sint_word_of_int_32:
  "- (2^31) \<le> k \<Longrightarrow> k < 2^31 \<Longrightarrow> sint (word_of_int k :: int32) = k"
  by (simp add: sint_sbintrunc' signed_take_bit_int_eq_self)

lemma checkArguments_Inr_iff:
  "checkArguments start stop step = Inr c \<longleftrightarrow>
     sint step \<noteq> 0 \<and> directionOk start stop step \<and> countOf start stop step \<le> 10000 \<and>
     c = word_of_int (countOf start stop step)"
  by (auto simp: checkArguments_eq)

lemma checkArguments_Inr_sint:
  assumes "checkArguments start stop step = Inr c"
  shows "sint c = countOf start stop step" "1 \<le> sint c" "sint c \<le> 10000"
proof -
  from assms have d: "directionOk start stop step" and le: "countOf start stop step \<le> 10000"
    and c: "c = word_of_int (countOf start stop step)"
    by (simp_all add: checkArguments_Inr_iff)
  from d have ge: "1 \<le> countOf start stop step" by (rule countOf_ge_1)
  from ge le show "sint c = countOf start stop step"
    unfolding c by (simp add: sint_word_of_int_32)
  with ge le show "1 \<le> sint c" "sint c \<le> 10000" by simp_all
qed

section \<open>Validation and sizing\<close>

text \<open>
  C2: when the step is not zero and the direction check passes, no intermediate term
  of the 128-bit computation overflows: the difference, the quotient and the count
  read as integers are the mathematical \<open>stop - start\<close>, \<open>(stop - start) / step\<close>
  and \<open>(stop - start) / step + 1\<close>, also at the extremes of the 64-bit range; and
  validation returns that count whenever it returns one.
\<close>

theorem count_is_exact_in_128_bits:
  assumes "step \<noteq> 0" and "if 0 <s step then start \<le>s stop else stop \<le>s start"
  shows "sint ((scast stop :: int128) - scast start) = sint stop - sint start
       \<and> sint (cdiv ((scast stop :: int128) - scast start) (scast step))
           = (sint stop - sint start) sdiv sint step
       \<and> sint (sequenceCount128 start stop step) = (sint stop - sint start) sdiv sint step + 1
       \<and> (\<forall>c. checkArguments start stop step = Inr c
              \<longrightarrow> sint c = (sint stop - sint start) sdiv sint step + 1)
       \<and> ((sint stop - sint start) sdiv sint step + 1 \<le> 10000
              \<longrightarrow> (\<exists>c. checkArguments start stop step = Inr c))"
proof -
  from assms have "sint step \<noteq> 0" "directionOk start stop step"
    by (simp_all add: word64_eq_0_iff directionOk_def word_sle_eq word_sless_alt
        split: if_splits)
  then have "countOf start stop step \<le> 10000 \<Longrightarrow> \<exists>c. checkArguments start stop step = Inr c"
    by (simp add: checkArguments_eq)
  then show ?thesis
    using checkArguments_Inr_sint(1) [of start stop step]
    by (simp add: sint_diff128 sint_cdiv128 sint_sequenceCount128 countOf_def)
qed

theorem count_is_exact_in_128_bits_witness:
  "sint ((scast (9223372036854775807 :: int64) :: int128) - scast (- 9223372036854775808 :: int64))
     = 18446744073709551615
   \<and> sint (sequenceCount128 (- 9223372036854775808) 9223372036854775807 2305843009213693952) = 8
   \<and> checkArguments (- 9223372036854775808) 9223372036854775807 2305843009213693952 = Inr 8"
proof -
  have s: "(2305843009213693952 :: int64) \<noteq> 0" by simp
  have d: "if 0 <s (2305843009213693952 :: int64)
           then (- 9223372036854775808 :: int64) \<le>s 9223372036854775807
           else (9223372036854775807 :: int64) \<le>s - 9223372036854775808"
    by (simp add: word_sle_eq word_sless_alt)
  have c: "checkArguments (- 9223372036854775808) 9223372036854775807 2305843009213693952 = Inr 8"
    by code_simp
  show ?thesis
    using count_is_exact_in_128_bits [OF s d] c by (simp add: signed_divide_int_def)
qed

text \<open>
  C3: a zero step fails with \<open>ZeroStep\<close> whatever start and stop are; a positive step
  with stop below start and a negative step with stop above start fail with
  \<open>DirectionMismatch\<close>; with start equal to stop the direction check passes for a
  step of either sign.
\<close>

theorem checkArguments_step_errors:
  "(step = 0 \<longrightarrow> checkArguments start stop step = Inl ZeroStep)
   \<and> (0 < sint step \<and> sint stop < sint start
        \<longrightarrow> checkArguments start stop step = Inl DirectionMismatch)
   \<and> (sint step < 0 \<and> sint start < sint stop
        \<longrightarrow> checkArguments start stop step = Inl DirectionMismatch)
   \<and> (step \<noteq> 0 \<longrightarrow> checkArguments start start step = Inr 1)"
  by (auto simp: checkArguments_eq directionOk_def countOf_def word64_eq_0_iff)

theorem checkArguments_step_errors_witness:
  "checkArguments 7 9 0 = Inl ZeroStep
   \<and> checkArguments 10 1 1 = Inl DirectionMismatch
   \<and> checkArguments 1 10 (- 1) = Inl DirectionMismatch
   \<and> checkArguments 4 4 (- 3) = Inr 1 \<and> checkArguments 4 4 3 = Inr 1"
  using checkArguments_step_errors [of 0 7 9] checkArguments_step_errors [of 1 10 1]
    checkArguments_step_errors [of "- 1" 1 10] checkArguments_step_errors [of "- 3" 4 4]
    checkArguments_step_errors [of 3 4 4]
  by simp

text \<open>
  C4: for a row that passed the zero-step and direction checks, a count of at most
  10000 is returned and a count of 10001 or more fails with \<open>ResultTooLarge\<close>; in
  particular a count of exactly 10000 succeeds, and no returned count exceeds
  \<open>kMaxResultEntries = 10000\<close>.
\<close>

theorem checkArguments_count_limit:
  assumes "step \<noteq> 0" and "directionOk start stop step"
  shows "(countOf start stop step = 10000 \<longrightarrow> checkArguments start stop step = Inr 10000)
       \<and> (countOf start stop step \<le> 10000
            \<longrightarrow> checkArguments start stop step = Inr (word_of_int (countOf start stop step)))
       \<and> (10001 \<le> countOf start stop step
            \<longrightarrow> checkArguments start stop step = Inl ResultTooLarge)
       \<and> (\<forall>c. checkArguments start stop step = Inr c
            \<longrightarrow> sint c \<le> sint kMaxResultEntries \<and> sint kMaxResultEntries = 10000)"
  using assms checkArguments_Inr_sint(3) [of start stop step]
  by (auto simp: checkArguments_eq word64_eq_0_iff kMaxResultEntries_def)

theorem checkArguments_count_limit_witness:
  "checkArguments 1 10000 1 = Inr 10000 \<and> checkArguments 1 10001 1 = Inl ResultTooLarge
   \<and> checkArguments 0 (- 29997) (- 3) = Inr 10000
   \<and> checkArguments 0 (- 30000) (- 3) = Inl ResultTooLarge"
proof -
  have a: "(1::int64) \<noteq> 0" "directionOk 1 10000 1" "countOf 1 10000 1 = 10000"
    by (simp_all add: directionOk_def countOf_def)
  have b: "directionOk 1 10001 1" "10001 \<le> countOf 1 10001 1"
    by (simp_all add: directionOk_def countOf_def)
  have c: "(- 3::int64) \<noteq> 0" "directionOk 0 (- 29997) (- 3)" "countOf 0 (- 29997) (- 3) = 10000"
    by (simp_all add: directionOk_def countOf_def signed_divide_int_def)
  have d: "directionOk 0 (- 30000) (- 3)" "10001 \<le> countOf 0 (- 30000) (- 3)"
    by (simp_all add: directionOk_def countOf_def signed_divide_int_def)
  show ?thesis
    using checkArguments_count_limit [OF a(1,2)] a(3) checkArguments_count_limit [OF a(1) b(1)] b(2)
      checkArguments_count_limit [OF c(1,2)] c(3) checkArguments_count_limit [OF c(1) d(1)] d(2)
    by simp
qed

section \<open>Step inference\<close>

lemma sint_word_of_int_64:
  "- (2^63) \<le> k \<Longrightarrow> k < 2^63 \<Longrightarrow> sint (word_of_int k :: int64) = k"
  by (simp add: sint_sbintrunc' signed_take_bit_int_eq_self)

lemma sint_kMillisInDay: "sint kMillisInDay = 86400000"
  by (simp add: kMillisInDay_def)

lemma smod_eq_0_iff_dvd: "(a::int) smod b = 0 \<longleftrightarrow> b dvd a"
proof -
  have "a smod b = 0 \<longleftrightarrow> a = 0 \<or> \<bar>a\<bar> mod \<bar>b\<bar> = 0"
    by (simp add: smod_int_alt_def sgn_eq_0_iff)
  also have "\<dots> \<longleftrightarrow> \<bar>b\<bar> dvd \<bar>a\<bar>"
    by (auto simp: dvd_eq_mod_eq_0)
  finally show ?thesis by simp
qed

lemma sdiv_dvd_mult: "(b::int) dvd a \<Longrightarrow> a sdiv b * b = a"
  using sdiv_mult_smod_eq [of a b] smod_eq_0_iff_dvd [of a b] by simp

lemma abs_sdiv: "\<bar>(a::int) sdiv b\<bar> = \<bar>a\<bar> div \<bar>b\<bar>"
proof (cases "a = 0 \<or> b = 0")
  case True
  then show ?thesis by auto
next
  case False
  have "0 \<le> \<bar>a\<bar> div \<bar>b\<bar>" by (simp add: div_int_pos_iff)
  with False show ?thesis
    by (simp add: signed_divide_int_def abs_mult abs_sgn_eq)
qed

lemma crem_kMillisInDay_0_iff: "crem step kMillisInDay = 0 \<longleftrightarrow> 86400000 dvd sint step"
proof -
  let ?r = "sint step smod 86400000"
  have "?r \<in> {- \<bar>86400000\<bar> + 1..\<bar>86400000\<bar> - 1}" by (rule smod_int_range) simp
  then have "- (2^63) \<le> ?r" "?r < 2^63" by simp_all
  then have "sint (word_of_int ?r :: int64) = ?r" by (rule sint_word_of_int_64)
  then have "(word_of_int ?r :: int64) = 0 \<longleftrightarrow> ?r = 0"
    by (simp add: word64_eq_0_iff)
  then show ?thesis
    by (simp add: crem_def sint_kMillisInDay smod_eq_0_iff_dvd)
qed

lemma sint_cdiv_kMillisInDay: "sint (cdiv step kMillisInDay) = sint step sdiv 86400000"
proof -
  let ?q = "sint step sdiv 86400000"
  have a: "\<bar>sint step\<bar> \<le> 2^63" using sint64_bounds [of step] by (simp add: abs_le_iff)
  have "\<bar>?q\<bar> = \<bar>sint step\<bar> div 86400000" by (simp add: abs_sdiv)
  also have "\<dots> \<le> \<bar>sint step\<bar> div 2" by (rule zdiv_mono2) simp_all
  also have "\<dots> \<le> 2^63 div 2" using a by (rule zdiv_mono1) simp
  finally have "\<bar>?q\<bar> \<le> 2^62" by simp
  then have "- (2^63) \<le> ?q" "?q < 2^63" by simp_all
  then show ?thesis
    by (simp add: cdiv_def sint_kMillisInDay sint_word_of_int_64)
qed

lemma getStep_None:
  "getStep start stop None row isDate = Inr (if sint start \<le> sint stop then 1 else - 1)"
  by (simp add: getStep_def word_sle_eq)

lemma getStep_not_date: "getStep start stop (Some sv) row False = Inr (sv row)"
  by (simp add: getStep_def)

lemma getStep_date:
  "getStep start stop (Some sv) row True =
     (if 86400000 dvd sint (sv row) then Inr (cdiv (sv row) kMillisInDay)
      else Inl InvalidDateStepUnit)"
  by (simp add: getStep_def crem_kMillisInDay_0_iff)

text \<open>
  C5: without a step column the step is 1 when stop is at least start and -1
  otherwise; a supplied step of a domain other than Date is used as it is; a supplied
  step of the Date domain that is not a multiple of the milliseconds of a day raises
  \<open>InvalidDateStepUnit\<close>, and one that is a multiple gives the quotient by the
  milliseconds of a day.
\<close>

theorem getStep_inference:
  "getStep start stop None row isDate = Inr (if sint start \<le> sint stop then 1 else - 1)
   \<and> getStep start stop (Some sv) row False = Inr (sv row)
   \<and> (\<not> sint kMillisInDay dvd sint (sv row)
        \<longrightarrow> getStep start stop (Some sv) row True = Inl InvalidDateStepUnit)
   \<and> (sint kMillisInDay dvd sint (sv row)
        \<longrightarrow> (\<exists>step. getStep start stop (Some sv) row True = Inr step
               \<and> sint step = sint (sv row) sdiv sint kMillisInDay
               \<and> sint step = sint (sv row) div sint kMillisInDay
               \<and> sint step * sint kMillisInDay = sint (sv row)))"
proof -
  have "sint (cdiv (sv row) kMillisInDay) = sint (sv row) div 86400000
      \<and> sint (cdiv (sv row) kMillisInDay) * 86400000 = sint (sv row)"
    if "86400000 dvd sint (sv row)"
    using that sdiv_dvd_mult [of 86400000 "sint (sv row)"]
    by (auto simp: sint_cdiv_kMillisInDay)
  then show ?thesis
    by (simp add: getStep_None getStep_not_date getStep_date sint_kMillisInDay
        sint_cdiv_kMillisInDay)
qed

theorem getStep_inference_witness:
  "getStep 3 3 None 0 True = Inr 1 \<and> getStep 3 2 None 0 False = Inr (- 1)
   \<and> getStep 1 9 (Some (\<lambda>_. - 4)) 0 False = Inr (- 4)
   \<and> getStep 1 9 (Some (\<lambda>_. 43200000)) 0 True = Inl InvalidDateStepUnit
   \<and> getStep 1 9 (Some (\<lambda>_. - 172800000)) 0 True = Inr (- 2)"
proof -
  have a: "\<not> sint kMillisInDay dvd sint (43200000 :: int64)"
    by (simp add: kMillisInDay_def)
  have b: "sint kMillisInDay dvd sint (- 172800000 :: int64)"
    by (simp add: kMillisInDay_def)
  have c: "sint s = sint (- 172800000 :: int64) div sint kMillisInDay \<Longrightarrow> s = - 2" for s :: int64
    by (rule signed_word_eqI) (simp add: kMillisInDay_def)
  show ?thesis
    using getStep_inference [of 3 3 0 True "\<lambda>_. 0"] getStep_inference [of 3 2 0 False "\<lambda>_. 0"]
      getStep_inference [of 1 9 0 False "\<lambda>_. - 4"]
      getStep_inference [of 1 9 0 True "\<lambda>_. 43200000"] a
      getStep_inference [of 1 9 0 True "\<lambda>_. - 172800000"] b c
    by auto
qed

text \<open>
  C10: in the first pass on a Date row with a supplied step, the whole-day check of
  \<open>getStep\<close> comes before the checks of \<open>checkArguments\<close>. A supplied step of 0
  milliseconds passes the whole-day check, gives the step 0 and fails with
  \<open>ZeroStep\<close>; a step that is not a whole number of days fails with
  \<open>InvalidDateStepUnit\<close> for every start and stop, also when they are equal or when
  the direction is against the sign of the step.
\<close>

theorem date_step_unit_checked_first:
  "(sv row = 0 \<longrightarrow>
      getStep (toInt64 (startVector row)) (toInt64 (stopVector row)) (Some sv) row True = Inr 0
      \<and> sizeRow toInt64 startVector stopVector (Some sv) True row (rawSizes, numElements)
          = ((rawSizes, numElements), Some ZeroStep))
   \<and> (\<not> sint kMillisInDay dvd sint (sv row) \<longrightarrow>
      sv row \<noteq> 0
      \<and> sizeRow toInt64 startVector stopVector (Some sv) True row (rawSizes, numElements)
          = ((rawSizes, numElements), Some InvalidDateStepUnit))"
proof -
  have "cdiv (0::int64) kMillisInDay = 0" by (simp add: cdiv_def)
  then show ?thesis
    by (auto simp: sizeRow_def getStep_date sint_kMillisInDay checkArguments_eq)
qed

theorem date_step_unit_checked_first_witness:
  "sizeRow toInt64_Date (\<lambda>_. Date 5) (\<lambda>_. Date 9) (Some (\<lambda>_. 0)) True 0 ([0], 0)
     = (([0], 0), Some ZeroStep)
   \<and> sizeRow toInt64_Date (\<lambda>_. Date 5) (\<lambda>_. Date 5) (Some (\<lambda>_. 3600000)) True 0 ([0], 0)
     = (([0], 0), Some InvalidDateStepUnit)
   \<and> sizeRow toInt64_Date (\<lambda>_. Date 5) (\<lambda>_. Date 9) (Some (\<lambda>_. - 3600000)) True 0 ([0], 0)
     = (([0], 0), Some InvalidDateStepUnit)"
proof -
  have a: "\<not> sint kMillisInDay dvd sint (3600000 :: int64)"
    "\<not> sint kMillisInDay dvd sint (- 3600000 :: int64)"
    by (simp_all add: kMillisInDay_def)
  show ?thesis
    using date_step_unit_checked_first [of "\<lambda>_. 0" 0 toInt64_Date "\<lambda>_. Date 5" "\<lambda>_. Date 9" "[0]" 0]
      date_step_unit_checked_first [of "\<lambda>_. 3600000" 0 toInt64_Date "\<lambda>_. Date 5" "\<lambda>_. Date 5" "[0]" 0]
      date_step_unit_checked_first [of "\<lambda>_. - 3600000" 0 toInt64_Date "\<lambda>_. Date 5" "\<lambda>_. Date 9" "[0]" 0]
      a
    by simp
qed

section \<open>Element domains\<close>

lemma scast_scast_32_64_32: "(scast (scast (d::int32) :: int64) :: int32) = d"
  by (simp add: scast_up_scast_id is_up)

lemma add_int64_0: "add_int64 v 0 = v"
  by (simp add: add_int64_def)

lemma add_Date_0: "add_Date d 0 = d"
  by (cases d) (simp add: add_Date_def scast_scast_32_64_32)

lemma add_Timestamp_0: "add_Timestamp t 0 = t"
  by (cases t) (simp add: add_Timestamp_def)

text \<open>
  C8: in each of the three domains, \<open>add\<close> with zero steps gives the value back:
  the value goes to its 64-bit ordinal, zero is added, and the value built from the
  sum is the one that was given.
\<close>

theorem add_zero_round_trip:
  "add_int64 v 0 = v \<and> add_Date d 0 = d \<and> add_Timestamp t 0 = t"
  by (simp add: add_int64_0 add_Date_0 add_Timestamp_0)

section \<open>The fill pass\<close>

subsection \<open>The loop of \<open>writeToElements\<close>\<close>

lemma length_writeLoop [simp]:
  "length (writeLoop add start step c base i elements) = length elements"
proof (induction add start step c base i elements rule: writeLoop.induct)
  case (1 add start step c base i elements)
  show ?case
  proof (cases "int i < sint c")
    case True
    with "1.IH" show ?thesis by (subst writeLoop.simps) simp
  next
    case False
    then show ?thesis by (subst writeLoop.simps) simp
  qed
qed

lemma nth_writeLoop:
  "k < length elements \<Longrightarrow>
   writeLoop add start step c base i elements ! k =
     (if base + i \<le> k \<and> int (k - base) < sint c
      then add start (step * of_nat (k - base)) else elements ! k)"
proof (induction add start step c base i elements rule: writeLoop.induct)
  case (1 add start step c base i elements)
  show ?case
  proof (cases "int i < sint c")
    case True
    have "writeLoop add start step c base i elements ! k =
          writeLoop add start step c base (Suc i)
            (elements[base + i := add start (step * of_nat i)]) ! k"
      using True by (subst writeLoop.simps) simp
    also have "\<dots> =
        (if base + Suc i \<le> k \<and> int (k - base) < sint c
         then add start (step * of_nat (k - base))
         else elements[base + i := add start (step * of_nat i)] ! k)"
      using "1.IH" [OF True] "1.prems" by simp
    also have "\<dots> =
        (if base + i \<le> k \<and> int (k - base) < sint c
         then add start (step * of_nat (k - base)) else elements ! k)"
      using True "1.prems" by (auto simp: nth_list_update)
    finally show ?thesis .
  next
    case False
    then have eq: "writeLoop add start step c base i elements = elements"
      by (subst writeLoop.simps) simp
    from False have neg: "\<not> (base + i \<le> k \<and> int (k - base) < sint c)"
      by auto
    show ?thesis unfolding eq by (simp only: neg if_False)
  qed
qed

lemma writeLoop_slice:
  assumes "base + nat (sint c) \<le> length elements"
  shows "writeLoop add start step c base 0 elements =
     take base elements @ map (\<lambda>i. add start (step * of_nat i)) [0..<nat (sint c)]
       @ drop (base + nat (sint c)) elements"
proof (rule nth_equalityI)
  show "length (writeLoop add start step c base 0 elements) =
    length (take base elements @ map (\<lambda>i. add start (step * of_nat i)) [0..<nat (sint c)]
       @ drop (base + nat (sint c)) elements)"
    using assms by simp
next
  fix k assume "k < length (writeLoop add start step c base 0 elements)"
  then have k: "k < length elements" by simp
  show "writeLoop add start step c base 0 elements ! k =
    (take base elements @ map (\<lambda>i. add start (step * of_nat i)) [0..<nat (sint c)]
       @ drop (base + nat (sint c)) elements) ! k"
  proof (cases "k < base")
    case True
    with k show ?thesis by (simp add: nth_writeLoop nth_append)
  next
    case False
    show ?thesis
    proof (cases "k < base + nat (sint c)")
      case True
      with False k assms show ?thesis
        by (auto simp: nth_writeLoop nth_append)
    next
      case f2: False
      with False k assms show ?thesis
        by (auto simp: nth_writeLoop nth_append)
    qed
  qed
qed

subsection \<open>The values of a validated row do not wrap\<close>

lemma mult_div_le_int: "0 < b \<Longrightarrow> b * (a div b) \<le> (a::int)"
  using mult_div_mod_eq [of b a] pos_mod_sign [of b a] by linarith

lemma progression_between:
  assumes d: "directionOk start stop step" and nz: "sint step \<noteq> 0"
    and i: "int i < countOf start stop step"
  shows "if 0 < sint step
         then sint start \<le> sint start + sint step * int i \<and> sint start + sint step * int i \<le> sint stop
         else sint stop \<le> sint start + sint step * int i \<and> sint start + sint step * int i \<le> sint start"
proof (cases "0 < sint step")
  case True
  let ?d = "sint stop - sint start"
  from d True have d0: "0 \<le> ?d" by (simp add: directionOk_def)
  from i have "int i \<le> ?d div sint step"
    using True d0 by (simp add: countOf_def sdiv_pos_pos)
  then have "sint step * int i \<le> sint step * (?d div sint step)"
    using True by (simp add: mult_left_mono)
  also have "\<dots> \<le> ?d"
    using True by (rule mult_div_le_int)
  finally have "sint step * int i \<le> ?d" .
  moreover have "0 \<le> sint step * int i" using True by simp
  ultimately show ?thesis using True by simp
next
  case False
  with nz have neg: "sint step < 0" by simp
  let ?d = "sint start - sint stop"
  from d False have d0: "0 \<le> ?d" by (simp add: directionOk_def)
  have "(sint stop - sint start) sdiv sint step = ?d div (- sint step)"
    using d0 neg sdiv_neg_neg [of "sint stop - sint start" "sint step"] by simp
  with i have "int i \<le> ?d div (- sint step)"
    by (simp add: countOf_def)
  then have "(- sint step) * int i \<le> (- sint step) * (?d div (- sint step))"
    using neg by (simp add: mult_left_mono)
  also have "\<dots> \<le> ?d"
    using neg by (intro mult_div_le_int) simp
  finally have "(- sint step) * int i \<le> ?d" .
  moreover have "0 \<le> (- sint step) * int i" using neg by (intro mult_nonneg_nonneg) simp_all
  ultimately show ?thesis using False by simp
qed

lemma last_value_near_stop:
  assumes d: "directionOk start stop step" and nz: "sint step \<noteq> 0"
  shows "\<bar>sint start + sint step * (countOf start stop step - 1) - sint stop\<bar> < \<bar>sint step\<bar>"
proof -
  let ?d = "sint stop - sint start"
  have "?d sdiv sint step * sint step + ?d smod sint step = ?d"
    by (rule sdiv_mult_smod_eq)
  then have "sint start + sint step * (countOf start stop step - 1) - sint stop
      = - (?d smod sint step)"
    by (simp add: countOf_def algebra_simps)
  moreover have "?d smod sint step \<in> {- \<bar>sint step\<bar> + 1..\<bar>sint step\<bar> - 1}"
    using nz by (rule smod_int_range)
  ultimately show ?thesis by auto
qed

lemma word_progression_eq:
  "(start::int64) + step * of_nat i = word_of_int (sint start + sint step * int i)"
  by simp

lemma unat_word_of_int_32:
  "0 \<le> k \<Longrightarrow> k < 2^32 \<Longrightarrow> unat (word_of_int k :: int32) = nat k"
  by (simp add: unsigned_of_int take_bit_int_eq_self)

lemma unat_eq_sint_count:
  assumes "checkArguments start stop step = Inr c"
  shows "int (unat c) = sint c" "nat (sint c) = unat c" "c \<noteq> 0"
    "int (unat c) = countOf start stop step"
proof -
  from assms have s: "sint c = countOf start stop step" "1 \<le> sint c" "sint c \<le> 10000"
    by (rule checkArguments_Inr_sint)+
  from assms have c: "c = word_of_int (countOf start stop step)"
    by (simp add: checkArguments_Inr_iff)
  from s have "unat c = nat (countOf start stop step)"
    unfolding c by (intro unat_word_of_int_32) simp_all
  with s show "int (unat c) = sint c" by simp
  then show "nat (sint c) = unat c" by (metis nat_int)
  show "c \<noteq> 0" using s(2) by auto
  show "int (unat c) = countOf start stop step"
    using \<open>int (unat c) = sint c\<close> s(1) by simp
qed

lemma progression_in_int64:
  assumes c: "checkArguments start stop step = Inr c" and i: "i < unat c"
  shows "min (sint start) (sint stop) \<le> sint start + sint step * int i"
    and "sint start + sint step * int i \<le> max (sint start) (sint stop)"
proof -
  from c have nz: "sint step \<noteq> 0" and d: "directionOk start stop step"
    by (simp_all add: checkArguments_Inr_iff)
  from i have "int i < countOf start stop step"
    using unat_eq_sint_count(4) [OF c] by linarith
  note b = progression_between [OF d nz this]
  define p where "p = sint step * int i"
  from b have "if 0 < sint step
     then sint start \<le> sint start + p \<and> sint start + p \<le> sint stop
     else sint stop \<le> sint start + p \<and> sint start + p \<le> sint start"
    unfolding p_def .
  then have "min (sint start) (sint stop) \<le> sint start + p
      \<and> sint start + p \<le> max (sint start) (sint stop)"
    by (auto split: if_splits)
  then show "min (sint start) (sint stop) \<le> sint start + sint step * int i"
    and "sint start + sint step * int i \<le> max (sint start) (sint stop)"
    unfolding p_def by blast+
qed

lemma add_int64_progression:
  assumes c: "checkArguments start stop step = Inr c" and i: "i < unat c"
  shows "sint (add_int64 start (step * of_nat i)) = sint start + sint step * int i"
proof -
  define m where "m = sint start + sint step * int i"
  from progression_in_int64 [OF c i]
  have "min (sint start) (sint stop) \<le> m" "m \<le> max (sint start) (sint stop)"
    unfolding m_def by blast+
  then have "- (2^63) \<le> m" "m < 2^63"
    using sint64_bounds [of start] sint64_bounds [of stop] by auto
  then have "sint (word_of_int m :: int64) = m"
    by (rule sint_word_of_int_64)
  then show ?thesis
    unfolding m_def by (simp only: add_int64_def word_progression_eq)
qed

section \<open>The two passes of the kernel\<close>

subsection \<open>Rows are visited in order, whatever the context holds\<close>

lemma fst_applyRows:
  "fst (applyRows func rs (s, ctx)) = fold (\<lambda>row s. fst (func row s)) rs s"
proof (induction rs arbitrary: s ctx)
  case Nil
  show ?case by simp
next
  case (Cons row rs)
  show ?case
  proof (cases "func row s")
    case (Pair s' eo)
    with Cons.IH show ?thesis by (cases eo) simp_all
  qed
qed

lemma selectedRows_sorted: "sorted_wrt (<) (selectedRows rows)"
  by (simp add: selectedRows_def sorted_wrt_filter)

lemma selectedRows_iff:
  "row \<in> set (selectedRows rows) \<longleftrightarrow> row < length rows \<and> rows ! row"
  by (auto simp: selectedRows_def)

subsection \<open>The first pass\<close>

lemma rowSize_Inr:
  "rowCount toInt64 startVector stopVector stepVector isDate row = Inr c \<Longrightarrow>
   rowSize toInt64 startVector stopVector stepVector isDate row = unat c"
  by (simp add: rowSize_def)

lemma rowSize_Inl:
  "rowCount toInt64 startVector stopVector stepVector isDate row = Inl e \<Longrightarrow>
   rowSize toInt64 startVector stopVector stepVector isDate row = 0"
  by (simp add: rowSize_def)

lemma fst_sizeRow:
  assumes "row < length rawSizes"
  shows "fst (sizeRow toInt64 startVector stopVector stepVector isDate row (rawSizes, numElements)) =
     (case rowCount toInt64 startVector stopVector stepVector isDate row of
        Inl e \<Rightarrow> (rawSizes, numElements)
      | Inr c \<Rightarrow> (rawSizes[row := c], numElements + c))"
  using assms
  by (simp add: sizeRow_def rowCount_def rowStep_def Let_def split: sum.splits)

lemma first_pass:
  assumes "\<forall>r\<in>set rs. r < length sz \<and> sz ! r = 0" and "distinct rs"
  shows "\<exists>sz'. fold (\<lambda>row s. fst (sizeRow toInt64 startVector stopVector stepVector isDate row s))
            rs (sz, n)
          = (sz', n + of_nat (sum_list
                (map (rowSize toInt64 startVector stopVector stepVector isDate) rs)))
        \<and> length sz' = length sz
        \<and> (\<forall>k<length sz. sz' ! k =
              (if k \<in> set rs
               then of_nat (rowSize toInt64 startVector stopVector stepVector isDate k)
               else sz ! k))"
  using assms
proof (induction rs arbitrary: sz n)
  case Nil
  show ?case by simp
next
  case (Cons r rs)
  let ?size = "rowSize toInt64 startVector stopVector stepVector isDate"
  let ?F = "\<lambda>row s. fst (sizeRow toInt64 startVector stopVector stepVector isDate row s)"
  from Cons.prems have r: "r < length sz" "sz ! r = 0" "r \<notin> set rs" "distinct rs"
    by simp_all
  obtain sz1 where step: "?F r (sz, n) = (sz1, n + of_nat (?size r))"
    and len1: "length sz1 = length sz"
    and nth1: "\<forall>k<length sz. sz1 ! k = (if k = r then of_nat (?size r) else sz ! k)"
  proof (cases "rowCount toInt64 startVector stopVector stepVector isDate r")
    case (Inl e)
    with r show ?thesis
      by (intro that [of sz]) (simp_all add: fst_sizeRow rowSize_Inl)
  next
    case (Inr c)
    with r show ?thesis
      by (intro that [of "sz[r := c]"]) (simp_all add: fst_sizeRow rowSize_Inr nth_list_update)
  qed
  have "\<forall>r'\<in>set rs. r' < length sz1 \<and> sz1 ! r' = 0"
    using Cons.prems(1) r(3) len1 nth1 by auto
  from Cons.IH [OF this r(4), of "n + of_nat (?size r)"]
  obtain sz' where f: "fold ?F rs (sz1, n + of_nat (?size r))
        = (sz', n + of_nat (?size r) + of_nat (sum_list (map ?size rs)))"
    and len': "length sz' = length sz1"
    and nth': "\<forall>k<length sz1. sz' ! k = (if k \<in> set rs then of_nat (?size k) else sz1 ! k)"
    by blast
  have "fold ?F (r # rs) (sz, n) = (sz', n + of_nat (sum_list (map ?size (r # rs))))"
    using step f by (simp add: add.assoc)
  moreover have "length sz' = length sz" using len' len1 by simp
  moreover have "\<forall>k<length sz. sz' ! k = (if k \<in> set (r # rs) then of_nat (?size k) else sz ! k)"
    using nth' nth1 len1 r(3) by auto
  ultimately show ?case by blast
qed

subsection \<open>What a validated row gives\<close>

lemma rowCount_InrD:
  assumes "rowCount toInt64 startVector stopVector stepVector isDate row = Inr c"
  obtains step where "rowStep toInt64 startVector stopVector stepVector isDate row = Inr step"
    and "checkArguments (toInt64 (startVector row)) (toInt64 (stopVector row)) step = Inr c"
  using assms by (auto simp: rowCount_def split: sum.splits)

lemma rowCount_Inr_facts:
  assumes "rowCount toInt64 startVector stopVector stepVector isDate row = Inr c"
  shows "nat (sint c) = unat c" and "c \<noteq> 0" and "1 \<le> unat c" and "unat c \<le> 10000"
    and "of_nat (rowSize toInt64 startVector stopVector stepVector isDate row) = c"
proof -
  from assms obtain step
    where c: "checkArguments (toInt64 (startVector row)) (toInt64 (stopVector row)) step = Inr c"
    by (rule rowCount_InrD)
  show "nat (sint c) = unat c" and "c \<noteq> 0"
    using unat_eq_sint_count [OF c] by simp_all
  have "1 \<le> sint c" "sint c \<le> 10000" using checkArguments_Inr_sint [OF c] by simp_all
  with unat_eq_sint_count(1) [OF c] show "1 \<le> unat c" and "unat c \<le> 10000"
    by linarith+
  show "of_nat (rowSize toInt64 startVector stopVector stepVector isDate row) = c"
    using assms by (simp add: rowSize_def)
qed

lemma rowSize_le: "rowSize toInt64 startVector stopVector stepVector isDate row \<le> 10000"
  by (cases "rowCount toInt64 startVector stopVector stepVector isDate row")
     (simp_all add: rowSize_def rowCount_Inr_facts)

lemma length_rowValues [simp]:
  "length (rowValues toInt64 add startVector stopVector stepVector isDate row) =
   rowSize toInt64 startVector stopVector stepVector isDate row"
proof (cases "rowStep toInt64 startVector stopVector stepVector isDate row")
  case (Inl e)
  then show ?thesis by (simp add: rowValues_def rowSize_def rowCount_def)
next
  case (Inr step)
  then show ?thesis by (simp add: rowValues_def)
qed

subsection \<open>The second pass\<close>

lemma fst_fillRow_empty:
  assumes "rawSizes ! row = 0"
  shows "fst (fillRow toInt64 add rawSizes isDate startVector stopVector stepVector row s) = s"
  using assms by (cases s) (simp add: fillRow_def)

lemma fst_fillRow_filled:
  assumes "rowCount toInt64 startVector stopVector stepVector isDate row = Inr c"
    and "rawSizes ! row = c"
    and "unat elementsOffset + unat c \<le> length rawElements"
  shows "fst (fillRow toInt64 add rawSizes isDate startVector stopVector stepVector row
               (rawOffsets, rawElements, elementsOffset)) =
     (rawOffsets[row := elementsOffset],
      take (unat elementsOffset) rawElements
        @ rowValues toInt64 add startVector stopVector stepVector isDate row
        @ drop (unat elementsOffset + unat c) rawElements,
      elementsOffset + c)"
proof -
  from assms(1) obtain step
    where s: "rowStep toInt64 startVector stopVector stepVector isDate row = Inr step"
    by (rule rowCount_InrD)
  note f = rowCount_Inr_facts [OF assms(1)]
  have v: "rowValues toInt64 add startVector stopVector stepVector isDate row =
      map (\<lambda>i. add (startVector row) (step * of_nat i)) [0..<unat c]"
    using s assms(1) by (simp add: rowValues_def rowSize_def)
  have "writeLoop add (startVector row) step c (unat elementsOffset) 0 rawElements =
      take (unat elementsOffset) rawElements
        @ map (\<lambda>i. add (startVector row) (step * of_nat i)) [0..<nat (sint c)]
        @ drop (unat elementsOffset + nat (sint c)) rawElements"
    using assms(3) f(1) by (intro writeLoop_slice) simp
  then show ?thesis
    using s assms(2) f(1,2) v
    by (simp add: fillRow_def writeToElements_def Let_def rowStep_def)
qed

lemma unat_plus_of_nat_32:
  assumes "unat (w::int32) + n < 2^32"
  shows "unat (w + of_nat n) = unat w + n"
proof -
  from assms have n: "n < 2^32" by simp
  then have "unat (of_nat n :: int32) = n" by (simp add: of_nat_inverse)
  with assms show ?thesis by (simp add: unat_add_lem [THEN iffD1])
qed

lemma second_pass:
  fixes offs :: "vector_size_t list"
  assumes "sorted_wrt (<) rs"
    and "\<forall>r\<in>set rs. r < length offs
           \<and> sizes ! r = of_nat (rowSize toInt64 startVector stopVector stepVector isDate r)"
    and "unat eo + sum_list (map (rowSize toInt64 startVector stopVector stepVector isDate) rs)
           \<le> length els"
    and "unat eo + sum_list (map (rowSize toInt64 startVector stopVector stepVector isDate) rs)
           < 2^32"
  shows "\<exists>offs'.
     fold (\<lambda>row s. fst (fillRow toInt64 add sizes isDate startVector stopVector stepVector row s))
        rs (offs, els, eo)
      = (offs',
         take (unat eo) els
           @ concat (map (rowValues toInt64 add startVector stopVector stepVector isDate) rs)
           @ drop (unat eo
               + sum_list (map (rowSize toInt64 startVector stopVector stepVector isDate) rs)) els,
         eo + of_nat (sum_list
               (map (rowSize toInt64 startVector stopVector stepVector isDate) rs)))
     \<and> length offs' = length offs
     \<and> (\<forall>k<length offs. offs' ! k =
           (if k \<in> set rs \<and> rowSize toInt64 startVector stopVector stepVector isDate k \<noteq> 0
            then eo + of_nat (sum_list
                   (map (rowSize toInt64 startVector stopVector stepVector isDate)
                      (filter (\<lambda>r. r < k) rs)))
            else offs ! k))"
  using assms
proof (induction rs arbitrary: offs els eo)
  case Nil
  then show ?case by simp
next
  case (Cons r rs)
  let ?size = "rowSize toInt64 startVector stopVector stepVector isDate"
  let ?vals = "rowValues toInt64 add startVector stopVector stepVector isDate"
  let ?G = "\<lambda>row s. fst (fillRow toInt64 add sizes isDate startVector stopVector stepVector row s)"
  let ?T = "sum_list (map ?size rs)"
  from Cons.prems(1) have gt: "\<forall>x\<in>set rs. r < x" and srt: "sorted_wrt (<) rs"
    by simp_all
  from Cons.prems(2) have r: "r < length offs" "sizes ! r = of_nat (?size r)"
    and rs: "\<forall>x\<in>set rs. x < length offs \<and> sizes ! x = of_nat (?size x)"
    by simp_all
  from Cons.prems(3,4) have le: "unat eo + ?size r + ?T \<le> length els"
    and lt: "unat eo + ?size r + ?T < 2^32"
    by (simp_all add: add.assoc)
  define offs1 where "offs1 = (if ?size r = 0 then offs else offs[r := eo])"
  define els1 where "els1 = take (unat eo) els @ ?vals r @ drop (unat eo + ?size r) els"
  define eo1 where "eo1 = eo + of_nat (?size r)"
  have len_els1: "length els1 = length els"
    using le by (simp add: els1_def)
  have unat1: "unat eo1 = unat eo + ?size r"
    unfolding eo1_def using lt by (intro unat_plus_of_nat_32) simp
  have step: "?G r (offs, els, eo) = (offs1, els1, eo1)"
  proof (cases "rowCount toInt64 startVector stopVector stepVector isDate r")
    case (Inl e)
    then have z: "?size r = 0" by (simp add: rowSize_def)
    then have "length (?vals r) = 0" by (simp only: length_rowValues)
    then have "?vals r = []" by (simp only: length_0_conv)
    with z r show ?thesis
      by (simp add: fst_fillRow_empty offs1_def els1_def eo1_def)
  next
    case (Inr c)
    note f = rowCount_Inr_facts [OF Inr]
    have sz: "?size r = unat c" using Inr by (simp add: rowSize_def)
    have "sizes ! r = c" using r(2) f(5) by simp
    moreover have "unat eo + unat c \<le> length els" using le sz by simp
    ultimately show ?thesis
      using fst_fillRow_filled [OF Inr, of sizes eo els add offs] f(3) sz
      by (simp add: offs1_def els1_def eo1_def f(5))
  qed
  have "\<forall>x\<in>set rs. x < length offs1
       \<and> sizes ! x = of_nat (?size x)"
    using rs by (simp add: offs1_def)
  moreover have "unat eo1 + ?T \<le> length els1" using le unat1 len_els1 by simp
  moreover have "unat eo1 + ?T < 2^32" using lt unat1 by simp
  ultimately obtain offs' where
    f: "fold ?G rs (offs1, els1, eo1)
        = (offs', take (unat eo1) els1 @ concat (map ?vals rs) @ drop (unat eo1 + ?T) els1,
           eo1 + of_nat ?T)"
    and len': "length offs' = length offs1"
    and nth': "\<forall>k<length offs1. offs' ! k =
           (if k \<in> set rs \<and> ?size k \<noteq> 0
            then eo1 + of_nat (sum_list (map ?size (filter (\<lambda>x. x < k) rs)))
            else offs1 ! k)"
    using Cons.IH [OF srt, of offs1 eo1 els1] by blast
  have t: "take (unat eo1) els1 = take (unat eo) els @ ?vals r"
    using le unfolding unat1 els1_def by simp
  have d: "drop (unat eo1 + ?T) els1 = drop (unat eo + (?size r + ?T)) els"
    using le unfolding unat1 els1_def by (simp add: add.assoc add.commute add.left_commute)
  have e: "eo1 + of_nat ?T = eo + of_nat (?size r + ?T)"
    by (simp add: eo1_def)
  have "fold ?G (r # rs) (offs, els, eo)
      = (offs', take (unat eo) els @ concat (map ?vals (r # rs))
           @ drop (unat eo + sum_list (map ?size (r # rs))) els,
         eo + of_nat (sum_list (map ?size (r # rs))))"
    using step f t d e by simp
  moreover have "length offs' = length offs"
    using len' by (simp add: offs1_def)
  moreover have "\<forall>k<length offs. offs' ! k =
           (if k \<in> set (r # rs) \<and> ?size k \<noteq> 0
            then eo + of_nat (sum_list (map ?size (filter (\<lambda>x. x < k) (r # rs))))
            else offs ! k)"
  proof (intro allI impI)
    fix k assume k: "k < length offs"
    then have k1: "k < length offs1" by (simp add: offs1_def)
    show "offs' ! k =
           (if k \<in> set (r # rs) \<and> ?size k \<noteq> 0
            then eo + of_nat (sum_list (map ?size (filter (\<lambda>x. x < k) (r # rs))))
            else offs ! k)"
    proof (cases "k \<in> set rs")
      case True
      with gt have "r < k" by blast
      with True nth' k1 show ?thesis
        by (auto simp: eo1_def offs1_def)
    next
      case False
      have none: "filter (\<lambda>x. x < r) rs = []"
        using gt by (auto simp: filter_empty_conv)
      from False nth' k1 have "offs' ! k = offs1 ! k" by simp
      with k none False show ?thesis
        by (auto simp: offs1_def)
    qed
  qed
  ultimately show ?case by blast
qed

subsection \<open>The result of the kernel\<close>

lemma fst_SequenceFunction_apply:
  "fst (SequenceFunction_apply toInt64 add rows startVector stopVector stepVector isDate
          uninit ctx) =
     (let s1 = fold (\<lambda>row s. fst (sizeRow toInt64 startVector stopVector stepVector isDate row s))
                 (selectedRows rows) (allocateSizes (length rows), 0);
          s2 = fold (\<lambda>row s. fst (fillRow toInt64 add (fst s1) isDate startVector stopVector
                                      stepVector row s))
                 (selectedRows rows)
                 (allocateOffsets (length rows), create (snd s1) uninit, 0)
      in \<lparr>arraySize = length rows, arrayOffsets = fst s2, arraySizes = fst s1,
           arrayElements = fst (snd s2)\<rparr>)"
  by (simp add: SequenceFunction_apply_def applyToSelectedNoThrow_def Let_def case_prod_beta
      fst_applyRows rows_end_def)

lemma list_eq_map_upt:
  assumes "length xs = n" and "\<forall>k<n. xs ! k = f k"
  shows "xs = map f [0..<n]"
  using assms by (intro nth_equalityI) simp_all

lemma sint_of_nat_32: "n < 2^31 \<Longrightarrow> sint (of_nat n :: int32) = int n"
proof -
  assume "n < 2^31"
  then have "int n < 2^31" by simp
  then have "sint (word_of_int (int n) :: int32) = int n"
    by (intro sint_word_of_int_32) simp_all
  then show ?thesis by simp
qed

text \<open>
  The result when the total of the batch fits in \<open>vector_size_t\<close>, that is, when
  the sizes of the selected rows add up to less than \<open>2^31\<close>.
\<close>

lemma apply_result:
  assumes fits: "sum_list (map (rowSize toInt64 startVector stopVector stepVector isDate)
                    (selectedRows rows)) < 2^31"
  shows "fst (SequenceFunction_apply toInt64 add rows startVector stopVector stepVector isDate
            uninit ctx) =
     \<lparr>arraySize = length rows,
      arrayOffsets = map (\<lambda>k.
          if rows ! k \<and> rowSize toInt64 startVector stopVector stepVector isDate k \<noteq> 0
          then of_nat (sum_list (map (rowSize toInt64 startVector stopVector stepVector isDate)
                 (filter (\<lambda>r. r < k) (selectedRows rows))))
          else 0) [0..<length rows],
      arraySizes = map (\<lambda>k.
          if rows ! k then of_nat (rowSize toInt64 startVector stopVector stepVector isDate k)
          else 0) [0..<length rows],
      arrayElements = concat (map (rowValues toInt64 add startVector stopVector stepVector isDate)
          (selectedRows rows))\<rparr>"
proof -
  let ?size = "rowSize toInt64 startVector stopVector stepVector isDate"
  let ?vals = "rowValues toInt64 add startVector stopVector stepVector isDate"
  let ?rs = "selectedRows rows"
  let ?n = "length rows"
  let ?T = "sum_list (map ?size ?rs)"
  let ?F = "\<lambda>row s. fst (sizeRow toInt64 startVector stopVector stepVector isDate row s)"
  have "\<forall>r\<in>set ?rs. r < length (allocateSizes ?n) \<and> allocateSizes ?n ! r = 0"
    by (simp add: allocateSizes_def selectedRows_iff)
  moreover have "distinct ?rs" by (simp add: selectedRows_def)
  ultimately obtain sz where
    p1: "fold ?F ?rs (allocateSizes ?n, 0) = (sz, 0 + of_nat ?T)"
    and len_sz: "length sz = length (allocateSizes ?n)"
    and nth_sz: "\<forall>k<length (allocateSizes ?n). sz ! k =
        (if k \<in> set ?rs then of_nat (?size k) else allocateSizes ?n ! k)"
    using first_pass [of ?rs "allocateSizes ?n" toInt64 startVector stopVector stepVector isDate 0]
    by blast
  have len_sz': "length sz = ?n" using len_sz by (simp add: allocateSizes_def)
  have nth_sz': "\<forall>k<?n. sz ! k = (if rows ! k then of_nat (?size k) else 0)"
    using nth_sz by (simp add: allocateSizes_def selectedRows_iff)
  let ?G = "\<lambda>row s. fst (fillRow toInt64 add sz isDate startVector stopVector stepVector row s)"
  let ?els = "create (of_nat ?T) uninit"
  have len_els: "length ?els = ?T"
    using fits by (simp add: create_def sint_of_nat_32)
  have "sorted_wrt (<) ?rs" by (rule selectedRows_sorted)
  moreover have "\<forall>r\<in>set ?rs. r < length (allocateOffsets ?n) \<and> sz ! r = of_nat (?size r)"
    using nth_sz' by (simp add: allocateOffsets_def selectedRows_iff)
  moreover have "unat (0::int32) + ?T \<le> length ?els" using len_els by simp
  moreover have "unat (0::int32) + ?T < 2^32" using fits by simp
  ultimately obtain offs where
    p2: "fold ?G ?rs (allocateOffsets ?n, ?els, 0) =
          (offs, take (unat (0::int32)) ?els @ concat (map ?vals ?rs)
                   @ drop (unat (0::int32) + ?T) ?els, 0 + of_nat ?T)"
    and len_offs: "length offs = length (allocateOffsets ?n)"
    and nth_offs: "\<forall>k<length (allocateOffsets ?n). offs ! k =
           (if k \<in> set ?rs \<and> ?size k \<noteq> 0
            then 0 + of_nat (sum_list (map ?size (filter (\<lambda>r. r < k) ?rs)))
            else allocateOffsets ?n ! k)"
    using second_pass [of ?rs "allocateOffsets ?n" sz toInt64 startVector stopVector stepVector
        isDate 0 ?els add]
    by blast
  have e: "take (unat (0::int32)) ?els @ concat (map ?vals ?rs) @ drop (unat (0::int32) + ?T) ?els
      = concat (map ?vals ?rs)"
    using len_els by simp
  have o: "offs = map (\<lambda>k. if rows ! k \<and> ?size k \<noteq> 0
          then of_nat (sum_list (map ?size (filter (\<lambda>r. r < k) ?rs))) else 0) [0..<?n]"
    using len_offs nth_offs
    by (intro list_eq_map_upt) (simp_all add: allocateOffsets_def selectedRows_iff)
  have s: "sz = map (\<lambda>k. if rows ! k then of_nat (?size k) else 0) [0..<?n]"
    using len_sz' nth_sz' by (intro list_eq_map_upt) simp_all
  show ?thesis
    unfolding fst_SequenceFunction_apply Let_def p1 using p2 e o s
    by simp
qed

subsection \<open>The second pass keeps the length of the buffer\<close>

lemma length_fillRow:
  "length (fst (snd (fst (fillRow toInt64 add rawSizes isDate startVector stopVector stepVector
      row (rawOffsets, rawElements, elementsOffset))))) = length rawElements"
  by (simp add: fillRow_def writeToElements_def Let_def split: sum.splits)

lemma second_pass_length:
  "length (fst (snd (fold
      (\<lambda>row s. fst (fillRow toInt64 add sizes isDate startVector stopVector stepVector row s))
      rs (offs, els, eo)))) = length els"
proof (induction rs arbitrary: offs els eo)
  case Nil
  show ?case by simp
next
  case (Cons r rs)
  obtain offs1 els1 eo1 where
    st: "fst (fillRow toInt64 add sizes isDate startVector stopVector stepVector r (offs, els, eo))
         = (offs1, els1, eo1)"
    by (cases "fst (fillRow toInt64 add sizes isDate startVector stopVector stepVector r
          (offs, els, eo))") 
  have "length (fst (snd (fst (fillRow toInt64 add sizes isDate startVector stopVector stepVector
      r (offs, els, eo))))) = length els"
    by (rule length_fillRow)
  then have l: "length els1 = length els" by (simp only: st fst_conv snd_conv)
  have "fold (\<lambda>row s. fst (fillRow toInt64 add sizes isDate startVector stopVector stepVector row s))
      (r # rs) (offs, els, eo)
    = fold (\<lambda>row s. fst (fillRow toInt64 add sizes isDate startVector stopVector stepVector row s))
      rs (offs1, els1, eo1)"
    by (simp only: fold_simps st)
  then show ?case by (simp only: Cons.IH [of offs1 els1 eo1] l)
qed

subsection \<open>Sizes and buffer length for every batch\<close>

lemma first_pass_result:
  "fold (\<lambda>row s. fst (sizeRow toInt64 startVector stopVector stepVector isDate row s))
      (selectedRows rows) (allocateSizes (length rows), 0)
   = (map (\<lambda>k. if rows ! k
                then of_nat (rowSize toInt64 startVector stopVector stepVector isDate k)
                else 0) [0..<length rows],
      of_nat (sum_list (map (rowSize toInt64 startVector stopVector stepVector isDate)
                 (selectedRows rows))))"
proof -
  let ?size = "rowSize toInt64 startVector stopVector stepVector isDate"
  let ?rs = "selectedRows rows"
  let ?n = "length rows"
  let ?F = "\<lambda>row s. fst (sizeRow toInt64 startVector stopVector stepVector isDate row s)"
  have "\<forall>r\<in>set ?rs. r < length (allocateSizes ?n) \<and> allocateSizes ?n ! r = 0"
    by (simp add: allocateSizes_def selectedRows_iff)
  moreover have "distinct ?rs" by (simp add: selectedRows_def)
  ultimately obtain sz where
    p1: "fold ?F ?rs (allocateSizes ?n, 0) = (sz, 0 + of_nat (sum_list (map ?size ?rs)))"
    and len_sz: "length sz = length (allocateSizes ?n)"
    and nth_sz: "\<forall>k<length (allocateSizes ?n). sz ! k =
        (if k \<in> set ?rs then of_nat (?size k) else allocateSizes ?n ! k)"
    using first_pass [of ?rs "allocateSizes ?n" toInt64 startVector stopVector stepVector isDate 0]
    by blast
  have "sz = map (\<lambda>k. if rows ! k then of_nat (?size k) else 0) [0..<?n]"
    using len_sz nth_sz
    by (intro list_eq_map_upt) (simp_all add: allocateSizes_def selectedRows_iff)
  with p1 show ?thesis by simp
qed

lemma apply_sizes:
  "arraySizes (fst (SequenceFunction_apply toInt64 add rows startVector stopVector stepVector
      isDate uninit ctx))
   = map (\<lambda>k. if rows ! k
                then of_nat (rowSize toInt64 startVector stopVector stepVector isDate k)
                else 0) [0..<length rows]"
  by (simp add: fst_SequenceFunction_apply first_pass_result Let_def)

lemma apply_elements_length:
  "length (arrayElements (fst (SequenceFunction_apply toInt64 add rows startVector stopVector
      stepVector isDate uninit ctx)))
   = nat (sint (of_nat (sum_list (map (rowSize toInt64 startVector stopVector stepVector isDate)
        (selectedRows rows))) :: int32))"
proof -
  have "length (arrayElements (fst (SequenceFunction_apply toInt64 add rows startVector stopVector
      stepVector isDate uninit ctx)))
    = length (create (of_nat (sum_list (map (rowSize toInt64 startVector stopVector stepVector
        isDate) (selectedRows rows))) :: int32) uninit)"
    by (simp add: fst_SequenceFunction_apply first_pass_result Let_def second_pass_length)
  then show ?thesis by (simp add: create_def)
qed

section \<open>The claims about the fill pass and the kernel\<close>

subsection \<open>The ordinals of the written values\<close>

lemma sint_toInt64_Date: "sint (toInt64_Date d) = sint (days d)"
  by (simp add: toInt64_Date_def sint_up_scast is_up)

lemma sint32_bounds: "- (2^31) \<le> sint (x::int32) \<and> sint x < 2^31"
  using sint_ge [of x] sint_lt [of x] by simp

lemma add_Timestamp_progression:
  assumes "checkArguments (toInt64_Timestamp start) stop step = Inr c" and "i < unat c"
  shows "sint (toInt64_Timestamp (add_Timestamp start (step * of_nat i)))
       = sint (toInt64_Timestamp start) + sint step * int i"
  using add_int64_progression [OF assms]
  by (simp add: toInt64_Timestamp_def add_Timestamp_def add_int64_def)

lemma add_Date_progression:
  assumes c: "checkArguments (toInt64_Date start) (toInt64_Date stop) step = Inr c"
    and i: "i < unat c"
  shows "sint (toInt64_Date (add_Date start (step * of_nat i)))
       = sint (toInt64_Date start) + sint step * int i"
proof -
  define m where "m = sint (toInt64_Date start) + sint step * int i"
  from progression_in_int64 [OF c i]
  have "min (sint (toInt64_Date start)) (sint (toInt64_Date stop)) \<le> m"
    "m \<le> max (sint (toInt64_Date start)) (sint (toInt64_Date stop))"
    unfolding m_def by blast+
  then have b: "- (2^31) \<le> m" "m < 2^31"
    using sint32_bounds [of "days start"] sint32_bounds [of "days stop"]
    by (auto simp: sint_toInt64_Date)
  then have "- (2^63) \<le> m" "m < 2^63" by simp_all
  then have s64: "sint (word_of_int m :: int64) = m" by (rule sint_word_of_int_64)
  have "toInt64_Date start + step * of_nat i = word_of_int m"
    unfolding m_def by (rule word_progression_eq)
  then have "add_Date start (step * of_nat i) = Date (scast (word_of_int m :: int64))"
    by (simp add: add_Date_def toInt64_Date_def)
  also have "(scast (word_of_int m :: int64) :: int32) = word_of_int m"
    by (simp only: scast_eq s64)
  finally have "sint (toInt64_Date (add_Date start (step * of_nat i)))
      = sint (word_of_int m :: int32)"
    by (simp add: sint_toInt64_Date)
  also have "\<dots> = m" using b by (rule sint_word_of_int_32)
  finally show ?thesis unfolding m_def .
qed

lemma last_value_direction:
  assumes c: "checkArguments start stop step = Inr c"
  shows "\<bar>sint (add_int64 start (step * of_nat (unat c - 1))) - sint stop\<bar> < \<bar>sint step\<bar>"
    and "if 0 < sint step
         then sint (add_int64 start (step * of_nat (unat c - 1))) \<le> sint stop
         else sint stop \<le> sint (add_int64 start (step * of_nat (unat c - 1)))"
proof -
  from c have nz: "sint step \<noteq> 0" and d: "directionOk start stop step"
    by (simp_all add: checkArguments_Inr_iff)
  have u: "int (unat c) = countOf start stop step" by (rule unat_eq_sint_count(4) [OF c])
  have "1 \<le> unat c"
    using unat_eq_sint_count(1) [OF c] checkArguments_Inr_sint(2) [OF c] by linarith
  then have i: "unat c - 1 < unat c" by simp
  have "int (unat c - 1) = int (unat c) - 1" using \<open>1 \<le> unat c\<close> by (simp only: of_nat_diff of_nat_1)
  then have e: "int (unat c - 1) = countOf start stop step - 1" by (simp only: u)
  have v: "sint (add_int64 start (step * of_nat (unat c - 1)))
      = sint start + sint step * (countOf start stop step - 1)"
    using add_int64_progression [OF c i] by (simp only: e)
  show "\<bar>sint (add_int64 start (step * of_nat (unat c - 1))) - sint stop\<bar> < \<bar>sint step\<bar>"
    unfolding v using d nz by (rule last_value_near_stop)
  have "int (unat c - 1) < countOf start stop step" by (simp only: e)
  from progression_between [OF d nz this]
  show "if 0 < sint step
         then sint (add_int64 start (step * of_nat (unat c - 1))) \<le> sint stop
         else sint stop \<le> sint (add_int64 start (step * of_nat (unat c - 1)))"
    unfolding v e by (simp split: if_splits)
qed

lemma writeToElements_validated:
  assumes "rowCount toInt64 startVector stopVector stepVector isDate row = Inr c"
    and "base + unat c \<le> length elements"
  shows "\<exists>step. rowStep toInt64 startVector stopVector stepVector isDate row = Inr step
     \<and> writeToElements toInt64 add elements base isDate c
           startVector stopVector stepVector row
         = Inr (take base elements
                @ map (\<lambda>i. add (startVector row) (step * of_nat i)) [0..<unat c]
                @ drop (base + unat c) elements)"
proof -
  from assms(1) obtain step
    where s: "rowStep toInt64 startVector stopVector stepVector isDate row = Inr step"
    by (rule rowCount_InrD)
  note f = rowCount_Inr_facts [OF assms(1)]
  have "writeLoop add (startVector row) step c base 0 elements =
      take base elements
        @ map (\<lambda>i. add (startVector row) (step * of_nat i)) [0..<nat (sint c)]
        @ drop (base + nat (sint c)) elements"
    using assms(2) f(1) by (intro writeLoop_slice) simp
  with s f(1) show ?thesis
    by (simp add: writeToElements_def Let_def rowStep_def)
qed

text \<open>
  C1: for a row that passed validation with count \<open>c\<close>, and a destination of \<open>c\<close>
  slots from index \<open>base\<close> of the buffer, \<open>writeToElements\<close> finds the step again
  and leaves \<open>add(start, step * i)\<close> in slot \<open>base + i\<close> for every \<open>i\<close> in
  \<open>[0, c)\<close>, the loop running up from 0, and nothing else is changed. Read as
  integers, the values of an integer row are \<open>start + step * i\<close> without wrap-around,
  the last one \<open>v\<close> has \<open>|v - stop| < |step|\<close> and lies on the start side of stop;
  the ordinals of the values of a date row and of a timestamp row are
  \<open>start + step * i\<close> as well.
\<close>

theorem fill_writes_progression:
  "(rowCount toInt64 startVector stopVector stepVector isDate row = Inr c
      \<and> base + unat c \<le> length elements \<longrightarrow>
      (\<exists>step. rowStep toInt64 startVector stopVector stepVector isDate row = Inr step
         \<and> writeToElements toInt64 add elements base isDate c
               startVector stopVector stepVector row
             = Inr (take base elements
                    @ map (\<lambda>i. add (startVector row) (step * of_nat i)) [0..<unat c]
                    @ drop (base + unat c) elements)))
   \<and> (checkArguments istart istop istep = Inr ic \<longrightarrow>
        (\<forall>i<unat ic. sint (add_int64 istart (istep * of_nat i)) = sint istart + sint istep * int i)
        \<and> \<bar>sint (add_int64 istart (istep * of_nat (unat ic - 1))) - sint istop\<bar> < \<bar>sint istep\<bar>
        \<and> (if 0 < sint istep
            then sint (add_int64 istart (istep * of_nat (unat ic - 1))) \<le> sint istop
            else sint istop \<le> sint (add_int64 istart (istep * of_nat (unat ic - 1)))))
   \<and> (checkArguments (toInt64_Date dstart) (toInt64_Date dstop) dstep = Inr dc \<longrightarrow>
        (\<forall>i<unat dc. sint (toInt64_Date (add_Date dstart (dstep * of_nat i)))
            = sint (toInt64_Date dstart) + sint dstep * int i))
   \<and> (checkArguments (toInt64_Timestamp tstart) (toInt64_Timestamp tstop) tstep = Inr tc \<longrightarrow>
        (\<forall>i<unat tc. sint (toInt64_Timestamp (add_Timestamp tstart (tstep * of_nat i)))
            = sint (toInt64_Timestamp tstart) + sint tstep * int i))"
  using writeToElements_validated [of toInt64 startVector stopVector stepVector isDate row c
      base elements add]
    add_int64_progression [of istart istop istep ic]
    last_value_direction [of istart istop istep ic]
    add_Date_progression [of dstart dstop dstep dc]
    add_Timestamp_progression [of tstart "toInt64_Timestamp tstop" tstep tc]
  by blast

theorem fill_writes_progression_witness:
  "writeToElements toInt64_int64 add_int64 [9, 9, 9, 9, 9] 1 False 3
       (\<lambda>_. 5) (\<lambda>_. 1) (Some (\<lambda>_. - 2)) 0 = Inr [9, 5, 3, 1, 9]
   \<and> sint (add_int64 5 (- 2 * of_nat 2)) = 1
   \<and> sint (toInt64_Date (add_Date (Date 18262) (1 * of_nat 2))) = 18264
   \<and> sint (toInt64_Timestamp (add_Timestamp (fromMillis 1577836800000) (1000 * of_nat 2)))
       = 1577836802000"
proof -
  have r: "rowCount toInt64_int64 (\<lambda>_. 5) (\<lambda>_. 1) (Some (\<lambda>_. - 2)) False 0 = Inr 3"
    by code_simp
  have s: "rowStep toInt64_int64 (\<lambda>_. 5) (\<lambda>_. 1) (Some (\<lambda>_. - 2)) False 0 = Inr (- 2)"
    by code_simp
  have b: "1 + unat (3::vector_size_t) \<le> length [9, 9, 9, 9, 9 :: int64]" by simp
  have i: "checkArguments 5 1 (- 2) = Inr 3" by code_simp
  have d: "checkArguments (toInt64_Date (Date 18262)) (toInt64_Date (Date 18264)) 1 = Inr 3"
    by code_simp
  have t: "checkArguments (toInt64_Timestamp (fromMillis 1577836800000))
             (toInt64_Timestamp (fromMillis 1577836802000)) 1000 = Inr 3"
    by code_simp
  have u: "(2::nat) < unat (3::vector_size_t)" by simp
  note T = fill_writes_progression [of toInt64_int64 "\<lambda>_. 5" "\<lambda>_. 1" "Some (\<lambda>_. - 2)" False 0 3
      1 "[9, 9, 9, 9, 9]" add_int64 5 1 "- 2" 3 "Date 18262" "Date 18264" 1 3
      "fromMillis 1577836800000" "fromMillis 1577836802000" 1000 3]
  from T r b obtain step where
    "rowStep toInt64_int64 (\<lambda>_. 5) (\<lambda>_. 1) (Some (\<lambda>_. - 2)) False 0 = Inr step"
    and w: "writeToElements toInt64_int64 add_int64 [9, 9, 9, 9, 9] 1 False 3
       (\<lambda>_. 5) (\<lambda>_. 1) (Some (\<lambda>_. - 2)) 0
       = Inr (take 1 [9, 9, 9, 9, 9]
                    @ map (\<lambda>i. add_int64 5 (step * of_nat i)) [0..<unat (3::vector_size_t)]
                    @ drop (1 + unat (3::vector_size_t)) [9, 9, 9, 9, 9])"
    by blast
  with s have step: "step = - 2" by simp
  from T i u have vi: "sint (add_int64 5 (- 2 * of_nat 2)) = sint (5::int64) + sint (- 2 :: int64) * int 2"
    by blast
  from T d u have vd: "sint (toInt64_Date (add_Date (Date 18262) (1 * of_nat 2)))
            = sint (toInt64_Date (Date 18262)) + sint (1::int64) * int 2"
    by blast
  from T t u have vt:
    "sint (toInt64_Timestamp (add_Timestamp (fromMillis 1577836800000) (1000 * of_nat 2)))
            = sint (toInt64_Timestamp (fromMillis 1577836800000)) + sint (1000::int64) * int 2"
    by blast
  have "[0..<unat (3::vector_size_t)] = [0, 1, 2]" by (simp add: upt_rec)
  with w step vi vd vt show ?thesis
    by (simp add: add_int64_def toInt64_Date_def toInt64_Timestamp_def sint_up_scast is_up)
qed

text \<open>
  C9: for a batch whose total fits in \<open>vector_size_t\<close> (the sizes of the selected rows
  add up to less than \<open>2^31\<close>, so that the running total does not overflow and every
  store of the fill pass lies inside the buffer), the result of the kernel (sizes,
  offsets and elements) depends on the mask and the columns only: it is the same
  whatever the context held before the call and whatever the fresh element buffer
  held, so a second run on the same batch, from the context the first run left, gives
  the same result.
\<close>

theorem kernel_is_deterministic:
  assumes "sum_list (map (rowSize toInt64 startVector stopVector stepVector isDate)
             (selectedRows rows)) < 2^31"
  shows "fst (SequenceFunction_apply toInt64 add rows startVector stopVector stepVector isDate
            uninit' ctx')
       = fst (SequenceFunction_apply toInt64 add rows startVector stopVector stepVector isDate
            uninit ctx)
       \<and> fst (SequenceFunction_apply toInt64 add rows startVector stopVector stepVector isDate
            uninit' (snd (SequenceFunction_apply toInt64 add rows startVector stopVector
                            stepVector isDate uninit ctx)))
       = fst (SequenceFunction_apply toInt64 add rows startVector stopVector stepVector isDate
            uninit ctx)"
proof -
  note r = apply_result [OF assms, of add]
  have "fst (SequenceFunction_apply toInt64 add rows startVector stopVector stepVector isDate
            uninit' ctx')
       = fst (SequenceFunction_apply toInt64 add rows startVector stopVector stepVector isDate
            uninit ctx)"
    by (rule trans [OF r r [symmetric]])
  moreover have "fst (SequenceFunction_apply toInt64 add rows startVector stopVector stepVector
            isDate uninit' (snd (SequenceFunction_apply toInt64 add rows startVector stopVector
                            stepVector isDate uninit ctx)))
       = fst (SequenceFunction_apply toInt64 add rows startVector stopVector stepVector isDate
            uninit ctx)"
    by (rule trans [OF r r [symmetric]])
  ultimately show ?thesis by (rule conjI)
qed

theorem kernel_is_deterministic_witness:
  "fst (SequenceFunction_apply toInt64_int64 add_int64 [True, True, False, True, True]
          (\<lambda>r. [1, 5, 0, 1, 7] ! r) (\<lambda>r. [5, 1, 3, 10, 7] ! r)
          (Some (\<lambda>r. [1, - 2, 1, - 1, 0] ! r)) False (\<lambda>_. 42) [(2, ResultTooLarge)])
   = fst (SequenceFunction_apply toInt64_int64 add_int64 [True, True, False, True, True]
          (\<lambda>r. [1, 5, 0, 1, 7] ! r) (\<lambda>r. [5, 1, 3, 10, 7] ! r)
          (Some (\<lambda>r. [1, - 2, 1, - 1, 0] ! r)) False (\<lambda>_. 99) [])
   \<and> fst (SequenceFunction_apply toInt64_int64 add_int64 [True, True, False, True, True]
          (\<lambda>r. [1, 5, 0, 1, 7] ! r) (\<lambda>r. [5, 1, 3, 10, 7] ! r)
          (Some (\<lambda>r. [1, - 2, 1, - 1, 0] ! r)) False (\<lambda>_. 42)
          (snd (SequenceFunction_apply toInt64_int64 add_int64 [True, True, False, True, True]
                  (\<lambda>r. [1, 5, 0, 1, 7] ! r) (\<lambda>r. [5, 1, 3, 10, 7] ! r)
                  (Some (\<lambda>r. [1, - 2, 1, - 1, 0] ! r)) False (\<lambda>_. 99) [])))
   = fst (SequenceFunction_apply toInt64_int64 add_int64 [True, True, False, True, True]
          (\<lambda>r. [1, 5, 0, 1, 7] ! r) (\<lambda>r. [5, 1, 3, 10, 7] ! r)
          (Some (\<lambda>r. [1, - 2, 1, - 1, 0] ! r)) False (\<lambda>_. 99) [])"
proof -
  let ?size = "rowSize toInt64_int64 (\<lambda>r. [1, 5, 0, 1, 7] ! r) (\<lambda>r. [5, 1, 3, 10, 7] ! r)
       (Some (\<lambda>r. [1, - 2, 1, - 1, 0] ! r)) False"
  have rs: "selectedRows [True, True, False, True, True] = [0, 1, 3, 4]" by code_simp
  have sz: "?size 0 = 5" "?size (Suc 0) = 3" "?size 3 = 0" "?size 4 = 0"
    by code_simp+
  have fits: "sum_list (map ?size (selectedRows [True, True, False, True, True])) < 2^31"
    unfolding rs by (simp add: sz)
  show ?thesis
    by (rule kernel_is_deterministic [OF fits])
qed

subsection \<open>A row with start equal to stop\<close>

lemma selectedRows_single: "selectedRows [True] = [0]"
  by (simp add: selectedRows_def)

lemma apply_single_equal_row:
  assumes s: "rowStep toInt64 startVector stopVector stepVector isDate 0 = Inr step"
    and nz: "step \<noteq> 0"
    and eq: "toInt64 (stopVector 0) = toInt64 (startVector 0)"
  shows "fst (SequenceFunction_apply toInt64 add [True] startVector stopVector stepVector isDate
            uninit ctx)
       = \<lparr>arraySize = 1, arrayOffsets = [0], arraySizes = [1],
          arrayElements = [add (startVector 0) 0]\<rparr>"
proof -
  have c: "rowCount toInt64 startVector stopVector stepVector isDate 0 = Inr 1"
    using s nz eq
    by (simp add: rowCount_def checkArguments_eq word64_eq_0_iff directionOk_def countOf_def)
  then have z: "rowSize toInt64 startVector stopVector stepVector isDate 0 = 1"
    by (simp add: rowSize_def)
  have v: "rowValues toInt64 add startVector stopVector stepVector isDate 0
      = [add (startVector 0) 0]"
    using s z by (simp add: rowValues_def)
  have "sum_list (map (rowSize toInt64 startVector stopVector stepVector isDate)
                    (selectedRows [True])) < 2^31"
    by (simp add: selectedRows_single z)
  from apply_result [OF this, of add uninit ctx] show ?thesis
    by (simp add: selectedRows_single z v)
qed

text \<open>
  C6: a count returned by validation is at least 1; with start equal to stop and any
  step other than 0, of either sign, validation returns the count 1, and the kernel on
  such a row gives one element, the start value, in each of the three domains.
\<close>

theorem equal_start_stop_gives_one_element:
  "(checkArguments start stop step = Inr c \<longrightarrow> 1 \<le> sint c \<and> c \<noteq> 0)
   \<and> (step \<noteq> 0 \<longrightarrow> checkArguments start start step = Inr 1)
   \<and> (rowStep toInt64_int64 istart istop stepVector isDate 0 = Inr istep \<and> istep \<noteq> 0
        \<and> istop 0 = istart 0 \<longrightarrow>
        fst (SequenceFunction_apply toInt64_int64 add_int64 [True] istart istop stepVector isDate
              iuninit ctx)
        = \<lparr>arraySize = 1, arrayOffsets = [0], arraySizes = [1], arrayElements = [istart 0]\<rparr>)
   \<and> (rowStep toInt64_Date dstart dstop stepVector isDate 0 = Inr dstep \<and> dstep \<noteq> 0
        \<and> dstop 0 = dstart 0 \<longrightarrow>
        fst (SequenceFunction_apply toInt64_Date add_Date [True] dstart dstop stepVector isDate
              duninit ctx)
        = \<lparr>arraySize = 1, arrayOffsets = [0], arraySizes = [1], arrayElements = [dstart 0]\<rparr>)
   \<and> (rowStep toInt64_Timestamp tstart tstop stepVector isDate 0 = Inr tstep \<and> tstep \<noteq> 0
        \<and> tstop 0 = tstart 0 \<longrightarrow>
        fst (SequenceFunction_apply toInt64_Timestamp add_Timestamp [True] tstart tstop stepVector
              isDate tuninit ctx)
        = \<lparr>arraySize = 1, arrayOffsets = [0], arraySizes = [1], arrayElements = [tstart 0]\<rparr>)"
proof -
  have "1 \<le> sint c \<and> c \<noteq> 0" if "checkArguments start stop step = Inr c"
    using checkArguments_Inr_sint(2) [OF that] unat_eq_sint_count(3) [OF that] by simp
  moreover have "checkArguments start start step = Inr 1" if "step \<noteq> 0"
    using that by (simp add: checkArguments_eq word64_eq_0_iff directionOk_def countOf_def)
  ultimately show ?thesis
    using apply_single_equal_row [of toInt64_int64 istart istop stepVector isDate istep
        add_int64 iuninit ctx]
      apply_single_equal_row [of toInt64_Date dstart dstop stepVector isDate dstep
        add_Date duninit ctx]
      apply_single_equal_row [of toInt64_Timestamp tstart tstop stepVector isDate tstep
        add_Timestamp tuninit ctx]
    by (simp add: add_int64_0 add_Date_0 add_Timestamp_0)
qed

theorem equal_start_stop_gives_one_element_witness:
  "checkArguments 7 7 (- 5) = Inr 1 \<and> checkArguments 7 7 5 = Inr 1
   \<and> fst (SequenceFunction_apply toInt64_int64 add_int64 [True] (\<lambda>_. 7) (\<lambda>_. 7)
            (Some (\<lambda>_. - 5)) False (\<lambda>_. 0) [])
      = \<lparr>arraySize = 1, arrayOffsets = [0], arraySizes = [1], arrayElements = [7]\<rparr>
   \<and> fst (SequenceFunction_apply toInt64_Date add_Date [True] (\<lambda>_. Date 18262) (\<lambda>_. Date 18262)
            (Some (\<lambda>_. - 86400000)) True (\<lambda>_. Date 0) [])
      = \<lparr>arraySize = 1, arrayOffsets = [0], arraySizes = [1], arrayElements = [Date 18262]\<rparr>
   \<and> fst (SequenceFunction_apply toInt64_Timestamp add_Timestamp [True] (\<lambda>_. fromMillis 1000)
            (\<lambda>_. fromMillis 1000) (Some (\<lambda>_. 250)) False (\<lambda>_. fromMillis 0) [])
      = \<lparr>arraySize = 1, arrayOffsets = [0], arraySizes = [1],
         arrayElements = [fromMillis 1000]\<rparr>"
proof -
  have a: "(- 5 :: int64) \<noteq> 0" "(5 :: int64) \<noteq> 0" by simp_all
  have i: "rowStep toInt64_int64 (\<lambda>_. 7) (\<lambda>_. 7) (Some (\<lambda>_. - 5)) False 0 = Inr (- 5)"
    by code_simp
  have d: "rowStep toInt64_Date (\<lambda>_. Date 18262) (\<lambda>_. Date 18262) (Some (\<lambda>_. - 86400000)) True 0
      = Inr (- 1)"
    by code_simp
  have t: "rowStep toInt64_Timestamp (\<lambda>_. fromMillis 1000) (\<lambda>_. fromMillis 1000)
      (Some (\<lambda>_. 250)) False 0 = Inr 250"
    by code_simp
  have n: "(- 1 :: int64) \<noteq> 0" "(250 :: int64) \<noteq> 0" by simp_all
  show ?thesis
    using equal_start_stop_gives_one_element [of 7 7 "- 5" 1 "\<lambda>_. 7" "\<lambda>_. 7" "Some (\<lambda>_. - 5)"
        False "- 5" "\<lambda>_. 0" "[]" "\<lambda>_. Date 0" "\<lambda>_. Date 0" 1 "\<lambda>_. Date 0"
        "\<lambda>_. fromMillis 0" "\<lambda>_. fromMillis 0" 1 "\<lambda>_. fromMillis 0"]
      equal_start_stop_gives_one_element [of 7 7 5 1 "\<lambda>_. 7" "\<lambda>_. 7" "Some (\<lambda>_. - 86400000)"
        True 1 "\<lambda>_. 0" "[]" "\<lambda>_. Date 18262" "\<lambda>_. Date 18262" "- 1" "\<lambda>_. Date 0"
        "\<lambda>_. fromMillis 0" "\<lambda>_. fromMillis 0" 1 "\<lambda>_. fromMillis 0"]
      equal_start_stop_gives_one_element [of 7 7 5 1 "\<lambda>_. 7" "\<lambda>_. 7" "Some (\<lambda>_. 250)"
        False 1 "\<lambda>_. 0" "[]" "\<lambda>_. Date 0" "\<lambda>_. Date 0" 1 "\<lambda>_. Date 0"
        "\<lambda>_. fromMillis 1000" "\<lambda>_. fromMillis 1000" 250 "\<lambda>_. fromMillis 0"]
      a i d t n
    by simp
qed

section \<open>Output assembly\<close>

subsection \<open>The slice of a row inside the concatenation\<close>

lemma sorted_split_at:
  fixes rs :: "nat list"
  assumes "sorted_wrt (<) rs" and "row \<in> set rs"
  shows "rs = filter (\<lambda>r. r < row) rs @ row # filter (\<lambda>r. row < r) rs"
  using assms
proof (induction rs)
  case Nil
  then show ?case by simp
next
  case (Cons x rs)
  from Cons.prems(1) have gt: "\<forall>y\<in>set rs. x < y" and srt: "sorted_wrt (<) rs" by simp_all
  show ?case
  proof (cases "x = row")
    case True
    from gt True have g: "\<forall>y\<in>set rs. row < y" by simp
    have "\<not> y < row" if "y \<in> set rs" for y
    proof -
      from g that have "row < y" by blast
      then show ?thesis by simp
    qed
    with g have "\<forall>y\<in>set rs. \<not> y < row" "\<forall>y\<in>set rs. row < y" by blast+
    then have "filter (\<lambda>r. r < row) rs = []" "filter (\<lambda>r. row < r) rs = rs"
      by (simp_all add: filter_empty_conv filter_id_conv)
    with True show ?thesis by simp
  next
    case False
    with Cons.prems(2) have in_rs: "row \<in> set rs" by simp
    with gt have "x < row" by blast
    then have r: "filter (\<lambda>r. r < row) (x # rs) @ row # filter (\<lambda>r. row < r) (x # rs)
        = x # (filter (\<lambda>r. r < row) rs @ row # filter (\<lambda>r. row < r) rs)"
      by simp
    show ?thesis unfolding r
      by (rule arg_cong [where f = "(#) x"]) (rule Cons.IH [OF srt in_rs])
  qed
qed

lemma concat_slice:
  fixes rs :: "nat list"
  assumes "sorted_wrt (<) rs" and "row \<in> set rs"
  shows "take (length (f row))
           (drop (sum_list (map (\<lambda>r. length (f r)) (filter (\<lambda>r. r < row) rs)))
              (concat (map f rs))) = f row"
proof -
  let ?before = "filter (\<lambda>r. r < row) rs" and ?after = "filter (\<lambda>r. row < r) rs"
  have "concat (map f rs) = concat (map f (?before @ row # ?after))"
    by (rule arg_cong [where f = "\<lambda>xs. concat (map f xs)"])
       (rule sorted_split_at [OF assms])
  also have "\<dots> = concat (map f ?before) @ f row @ concat (map f ?after)" by simp
  finally have c: "concat (map f rs) = concat (map f ?before) @ f row @ concat (map f ?after)" .
  have l: "length (concat (map f ?before)) = sum_list (map (\<lambda>r. length (f r)) ?before)"
    by (simp add: length_concat comp_def)
  show ?thesis unfolding c l [symmetric] by (simp only: drop_append take_append) simp
qed

lemma unat_of_nat_rowSize:
  "unat (of_nat (rowSize toInt64 startVector stopVector stepVector isDate row) :: int32)
     = rowSize toInt64 startVector stopVector stepVector isDate row"
proof -
  have "rowSize toInt64 startVector stopVector stepVector isDate row \<le> 10000"
    by (rule rowSize_le)
  then have "rowSize toInt64 startVector stopVector stepVector isDate row < 2^32" by simp
  then show ?thesis by (simp add: of_nat_inverse)
qed

subsection \<open>A batch whose total does not fit\<close>

lemma selectedRows_all: "selectedRows (replicate n True) = [0..<n]"
  by (simp add: selectedRows_def filter_id_conv)

lemma rowSize_full_row:
  "rowSize toInt64_int64 (\<lambda>_. 1) (\<lambda>_. 10000) None False row = 10000"
proof -
  have "checkArguments 1 10000 1 = Inr 10000" by code_simp
  then show ?thesis
    by (simp add: rowSize_def rowCount_def rowStep_def getStep_None toInt64_int64_def)
qed

lemma full_rows_batch:
  "arraySizes (fst (SequenceFunction_apply toInt64_int64 add_int64 (replicate n True)
      (\<lambda>_. 1) (\<lambda>_. 10000) None False uninit ctx)) = replicate n 10000"
  "length (arrayElements (fst (SequenceFunction_apply toInt64_int64 add_int64 (replicate n True)
      (\<lambda>_. 1) (\<lambda>_. 10000) None False uninit ctx))) = nat (sint (of_nat (n * 10000) :: int32))"
proof -
  show "arraySizes (fst (SequenceFunction_apply toInt64_int64 add_int64 (replicate n True)
      (\<lambda>_. 1) (\<lambda>_. 10000) None False uninit ctx)) = replicate n 10000"
    unfolding apply_sizes
    by (intro nth_equalityI) (simp_all add: rowSize_full_row)
  have "rowSize toInt64_int64 (\<lambda>_. 1) (\<lambda>_. 10000) None False = (\<lambda>_. 10000)"
    by (rule ext) (rule rowSize_full_row)
  then have "sum_list (map (rowSize toInt64_int64 (\<lambda>_. 1) (\<lambda>_. 10000) None False) [0..<n])
      = n * 10000"
    by (simp add: sum_list_triv)
  then show "length (arrayElements (fst (SequenceFunction_apply toInt64_int64 add_int64
      (replicate n True) (\<lambda>_. 1) (\<lambda>_. 10000) None False uninit ctx)))
      = nat (sint (of_nat (n * 10000) :: int32))"
    unfolding apply_elements_length selectedRows_all by simp
qed

text \<open>
  The claim C7 as it is written fails on a batch of 214749 selected rows of
  \<open>sequence(1, 10000)\<close>: every row has size 10000, the sizes add up to 2147490000,
  which is above the largest \<open>vector_size_t\<close>, and the element buffer does not have
  that length.
\<close>

theorem buffer_length_counterexample:
  "length (arrayElements (fst (SequenceFunction_apply toInt64_int64 add_int64
      (replicate 214749 True) (\<lambda>_. 1) (\<lambda>_. 10000) None False (\<lambda>_. 0) [])))
   \<noteq> sum_list (map unat (arraySizes (fst (SequenceFunction_apply toInt64_int64 add_int64
      (replicate 214749 True) (\<lambda>_. 1) (\<lambda>_. 10000) None False (\<lambda>_. 0) []))))"
proof -
  have "sint (of_nat (214749 * 10000) :: int32) = - 2147477296" by simp
  then have "nat (sint (of_nat (214749 * 10000) :: int32)) = 0" by simp
  moreover have "sum_list (map unat (replicate 214749 (10000 :: int32))) = 2147490000"
    by (simp add: sum_list_replicate)
  ultimately show ?thesis
    unfolding full_rows_batch by simp
qed

subsection \<open>A batch whose total fits\<close>

text \<open>
  C7, amended: when the sizes of the selected rows add up to less than \<open>2^31\<close>, so
  that the total fits in \<open>vector_size_t\<close>, the size of a row is the count of its
  validation if the row is selected and validation succeeds and 0 otherwise, the
  element buffer has the sum of the sizes of the selected rows as its length, a selected
  row of nonzero size has as offset the sum of the sizes of the selected rows before
  it and its slice holds its values, a row of size 0 keeps the offset 0, and the
  buffer is the concatenation of the slices of the selected rows in order.
\<close>

theorem output_assembly_tiles_buffer:
  assumes fits: "sum_list (map (rowSize toInt64 startVector stopVector stepVector isDate)
                    (selectedRows rows)) < 2^31"
  shows "let out = fst (SequenceFunction_apply toInt64 add rows startVector stopVector stepVector
                      isDate uninit ctx);
             size = (\<lambda>row. unat (arraySizes out ! row));
             offset = (\<lambda>row. unat (arrayOffsets out ! row))
         in length (arraySizes out) = length rows \<and> length (arrayOffsets out) = length rows
          \<and> (\<forall>row<length rows. size row =
                (if rows ! row then rowSize toInt64 startVector stopVector stepVector isDate row
                 else 0))
          \<and> length (arrayElements out) = sum_list (map size (selectedRows rows))
          \<and> (\<forall>row\<in>set (selectedRows rows). 0 < size row \<longrightarrow>
                offset row = sum_list (map size (filter (\<lambda>r. r < row) (selectedRows rows)))
                \<and> take (size row) (drop (offset row) (arrayElements out))
                    = rowValues toInt64 add startVector stopVector stepVector isDate row)
          \<and> (\<forall>row<length rows. size row = 0 \<longrightarrow> arrayOffsets out ! row = 0)
          \<and> arrayElements out
              = concat (map (rowValues toInt64 add startVector stopVector stepVector isDate)
                  (selectedRows rows))"
proof -
  let ?size = "rowSize toInt64 startVector stopVector stepVector isDate"
  let ?vals = "rowValues toInt64 add startVector stopVector stepVector isDate"
  let ?rs = "selectedRows rows"
  let ?n = "length rows"
  define out where "out = fst (SequenceFunction_apply toInt64 add rows startVector stopVector
      stepVector isDate uninit ctx)"
  note res = apply_result [OF fits, of add uninit ctx, folded out_def]
  have sizes: "unat (arraySizes out ! row) = (if rows ! row then ?size row else 0)"
    if "row < ?n" for row
    using that by (simp add: res unat_of_nat_rowSize)
  have sel: "unat (arraySizes out ! row) = ?size row" if "row \<in> set ?rs" for row
    using that sizes [of row] by (simp add: selectedRows_iff)
  have msel: "map (\<lambda>row. unat (arraySizes out ! row)) ?rs = map ?size ?rs"
    by (rule map_cong) (simp_all add: sel)
  have mfil: "map (\<lambda>row. unat (arraySizes out ! row)) (filter (\<lambda>r. r < row) ?rs)
      = map ?size (filter (\<lambda>r. r < row) ?rs)" for row
    by (rule map_cong) (simp_all add: sel)
  have els: "arrayElements out = concat (map ?vals ?rs)" by (simp add: res)
  have len: "length (arrayElements out) = sum_list (map ?size ?rs)"
    unfolding els by (simp add: length_concat comp_def)
  have offs: "unat (arrayOffsets out ! row) = sum_list (map ?size (filter (\<lambda>r. r < row) ?rs))
      \<and> take (unat (arraySizes out ! row)) (drop (unat (arrayOffsets out ! row))
            (arrayElements out)) = ?vals row"
    if r: "row \<in> set ?rs" and pos: "0 < unat (arraySizes out ! row)" for row
  proof -
    let ?S = "sum_list (map ?size (filter (\<lambda>r. r < row) ?rs))"
    from r have row: "row < ?n" "rows ! row" by (simp_all add: selectedRows_iff)
    from pos sel [OF r] have nz: "?size row \<noteq> 0" by simp
    have "?S \<le> sum_list (map ?size ?rs)" by (rule sum_list_filter_le_nat)
    with fits have "?S < 2^32" by simp
    then have u: "unat (of_nat ?S :: int32) = ?S" by (simp add: of_nat_inverse)
    have o: "unat (arrayOffsets out ! row) = ?S"
      using row nz u by (simp add: res)
    have "take (length (?vals row))
           (drop (sum_list (map (\<lambda>r. length (?vals r)) (filter (\<lambda>r. r < row) ?rs)))
              (concat (map ?vals ?rs))) = ?vals row"
      using selectedRows_sorted r by (rule concat_slice)
    then have "take (unat (arraySizes out ! row)) (drop (unat (arrayOffsets out ! row))
            (arrayElements out)) = ?vals row"
      unfolding els o sel [OF r] by simp
    with o show ?thesis by simp
  qed
  have zero: "arrayOffsets out ! row = 0"
    if "row < ?n" and "unat (arraySizes out ! row) = 0" for row
    using that sizes [of row] by (auto simp: res)
  have "length (arraySizes out) = ?n" "length (arrayOffsets out) = ?n"
    by (simp_all add: res)
  with sizes len offs zero els show ?thesis
    unfolding Let_def out_def [symmetric] msel mfil by blast
qed

theorem output_assembly_tiles_buffer_witness:
  "arrayElements (fst (SequenceFunction_apply toInt64_int64 add_int64
       [True, True, False, True, True] (\<lambda>r. [1, 5, 0, 1, 7] ! r) (\<lambda>r. [5, 1, 3, 10, 7] ! r)
       (Some (\<lambda>r. [1, - 2, 1, - 1, 0] ! r)) False (\<lambda>_. 99) []))
     = [1, 2, 3, 4, 5, 5, 3, 1]
   \<and> unat (arraySizes (fst (SequenceFunction_apply toInt64_int64 add_int64
       [True, True, False, True, True] (\<lambda>r. [1, 5, 0, 1, 7] ! r) (\<lambda>r. [5, 1, 3, 10, 7] ! r)
       (Some (\<lambda>r. [1, - 2, 1, - 1, 0] ! r)) False (\<lambda>_. 99) [])) ! 1) = 3
   \<and> unat (arrayOffsets (fst (SequenceFunction_apply toInt64_int64 add_int64
       [True, True, False, True, True] (\<lambda>r. [1, 5, 0, 1, 7] ! r) (\<lambda>r. [5, 1, 3, 10, 7] ! r)
       (Some (\<lambda>r. [1, - 2, 1, - 1, 0] ! r)) False (\<lambda>_. 99) [])) ! 1) = 5
   \<and> arrayOffsets (fst (SequenceFunction_apply toInt64_int64 add_int64
       [True, True, False, True, True] (\<lambda>r. [1, 5, 0, 1, 7] ! r) (\<lambda>r. [5, 1, 3, 10, 7] ! r)
       (Some (\<lambda>r. [1, - 2, 1, - 1, 0] ! r)) False (\<lambda>_. 99) [])) ! 3 = 0"
proof -
  let ?rows = "[True, True, False, True, True]"
  let ?size = "rowSize toInt64_int64 (\<lambda>r. [1, 5, 0, 1, 7] ! r) (\<lambda>r. [5, 1, 3, 10, 7] ! r)
       (Some (\<lambda>r. [1, - 2, 1, - 1, 0] ! r)) False"
  let ?vals = "rowValues toInt64_int64 add_int64 (\<lambda>r. [1, 5, 0, 1, 7] ! r)
       (\<lambda>r. [5, 1, 3, 10, 7] ! r) (Some (\<lambda>r. [1, - 2, 1, - 1, 0] ! r)) False"
  have rs: "selectedRows ?rows = [0, 1, 3, 4]" by code_simp
  have sz: "?size 0 = 5" "?size 1 = 3" "?size 3 = 0" "?size 4 = 0" "?size (Suc 0) = 3"
    by code_simp+
  have vs: "concat (map ?vals [0, 1, 3, 4]) = [1, 2, 3, 4, 5, 5, 3, 1]" by code_simp
  have fits: "sum_list (map ?size (selectedRows ?rows)) < 2^31"
    unfolding rs by (simp add: sz)
  note T = output_assembly_tiles_buffer [OF fits, of add_int64 "\<lambda>_. 99" "[]",
      unfolded Let_def rs]
  from T have e: "arrayElements (fst (SequenceFunction_apply toInt64_int64 add_int64
       ?rows (\<lambda>r. [1, 5, 0, 1, 7] ! r) (\<lambda>r. [5, 1, 3, 10, 7] ! r)
       (Some (\<lambda>r. [1, - 2, 1, - 1, 0] ! r)) False (\<lambda>_. 99) [])) = concat (map ?vals [0, 1, 3, 4])"
    by blast
  from T have s: "\<forall>row<length ?rows. unat (arraySizes (fst (SequenceFunction_apply toInt64_int64
       add_int64 ?rows (\<lambda>r. [1, 5, 0, 1, 7] ! r) (\<lambda>r. [5, 1, 3, 10, 7] ! r)
       (Some (\<lambda>r. [1, - 2, 1, - 1, 0] ! r)) False (\<lambda>_. 99) [])) ! row) =
         (if ?rows ! row then ?size row else 0)"
    by blast
  from s have s0: "unat (arraySizes (fst (SequenceFunction_apply toInt64_int64
       add_int64 ?rows (\<lambda>r. [1, 5, 0, 1, 7] ! r) (\<lambda>r. [5, 1, 3, 10, 7] ! r)
       (Some (\<lambda>r. [1, - 2, 1, - 1, 0] ! r)) False (\<lambda>_. 99) [])) ! 0) = 5"
    and s1: "unat (arraySizes (fst (SequenceFunction_apply toInt64_int64
       add_int64 ?rows (\<lambda>r. [1, 5, 0, 1, 7] ! r) (\<lambda>r. [5, 1, 3, 10, 7] ! r)
       (Some (\<lambda>r. [1, - 2, 1, - 1, 0] ! r)) False (\<lambda>_. 99) [])) ! 1) = 3"
    and s3: "unat (arraySizes (fst (SequenceFunction_apply toInt64_int64
       add_int64 ?rows (\<lambda>r. [1, 5, 0, 1, 7] ! r) (\<lambda>r. [5, 1, 3, 10, 7] ! r)
       (Some (\<lambda>r. [1, - 2, 1, - 1, 0] ! r)) False (\<lambda>_. 99) [])) ! 3) = 0"
    using sz by simp_all
  from T have "\<forall>row\<in>set [0, 1, 3, 4]. 0 < unat (arraySizes (fst (SequenceFunction_apply
       toInt64_int64 add_int64 ?rows (\<lambda>r. [1, 5, 0, 1, 7] ! r) (\<lambda>r. [5, 1, 3, 10, 7] ! r)
       (Some (\<lambda>r. [1, - 2, 1, - 1, 0] ! r)) False (\<lambda>_. 99) [])) ! row) \<longrightarrow>
     unat (arrayOffsets (fst (SequenceFunction_apply toInt64_int64 add_int64 ?rows
       (\<lambda>r. [1, 5, 0, 1, 7] ! r) (\<lambda>r. [5, 1, 3, 10, 7] ! r)
       (Some (\<lambda>r. [1, - 2, 1, - 1, 0] ! r)) False (\<lambda>_. 99) [])) ! row)
     = sum_list (map (\<lambda>row. unat (arraySizes (fst (SequenceFunction_apply toInt64_int64 add_int64
         ?rows (\<lambda>r. [1, 5, 0, 1, 7] ! r) (\<lambda>r. [5, 1, 3, 10, 7] ! r)
         (Some (\<lambda>r. [1, - 2, 1, - 1, 0] ! r)) False (\<lambda>_. 99) [])) ! row))
         (filter (\<lambda>r. r < row) [0, 1, 3, 4]))"
    by blast
  with s0 s1 have o1: "unat (arrayOffsets (fst (SequenceFunction_apply toInt64_int64 add_int64 ?rows
       (\<lambda>r. [1, 5, 0, 1, 7] ! r) (\<lambda>r. [5, 1, 3, 10, 7] ! r)
       (Some (\<lambda>r. [1, - 2, 1, - 1, 0] ! r)) False (\<lambda>_. 99) [])) ! 1) = 5"
    by simp
  from T s3 have o3: "arrayOffsets (fst (SequenceFunction_apply toInt64_int64 add_int64 ?rows
       (\<lambda>r. [1, 5, 0, 1, 7] ! r) (\<lambda>r. [5, 1, 3, 10, 7] ! r)
       (Some (\<lambda>r. [1, - 2, 1, - 1, 0] ! r)) False (\<lambda>_. 99) [])) ! 3 = 0"
    by simp
  from e vs s1 o1 o3 show ?thesis by simp
qed

end
